theory Spec2Isabelle
  imports Main
begin

section \<open>JavaScript strings\<close>

text \<open>
  A JavaScript string is modelled as a \<^typ>\<open>string\<close>: the development covers text whose
  characters lie in Latin-1. The line feed is \<open>CHR 0x0A\<close>, the carriage return
  \<open>CHR 0x0D\<close>.
\<close>

definition LF :: char where
  "LF = CHR 0x0A"

definition CR :: char where
  "CR = CHR 0x0D"

text \<open>\<^verbatim>\<open>String.prototype.split(sep)\<close> for a one-character separator: the result is never
  empty, and \<^verbatim>\<open>''.split(sep)\<close> is \<^verbatim>\<open>['']\<close>.\<close>

fun split :: "char \<Rightarrow> string \<Rightarrow> string list" where
  "split sep [] = [[]]"
| "split sep (c # cs) =
     (if c = sep then [] # split sep cs
      else (case split sep cs of [] \<Rightarrow> [[c]] | l # ls \<Rightarrow> (c # l) # ls))"

text \<open>\<^verbatim>\<open>Array.prototype.join(sep)\<close> on an array of strings.\<close>

fun join :: "string \<Rightarrow> string list \<Rightarrow> string" where
  "join sep [] = []"
| "join sep [l] = l"
| "join sep (l # l' # ls) = l @ sep @ join sep (l' # ls)"

text \<open>Case folding of the ASCII letters. \<open>Canonicalize\<close> is the folding a regular
  expression with the \<^verbatim>\<open>i\<close> flag applies to both sides of a character comparison; every
  pattern of the program is made of ASCII characters, and a character beyond ASCII never
  folds to an ASCII one, so the ASCII table decides every comparison.\<close>

definition Canonicalize :: "char \<Rightarrow> char" where
  "Canonicalize c =
     (case map_of (zip ''abcdefghijklmnopqrstuvwxyz'' ''ABCDEFGHIJKLMNOPQRSTUVWXYZ'') c of
        None \<Rightarrow> c | Some u \<Rightarrow> u)"

text \<open>\<^verbatim>\<open>toLocaleLowerCase()\<close> in a host locale without special casing rules (it is only
  ever applied to the five state names).\<close>

definition toLocaleLowerCase :: "string \<Rightarrow> string" where
  "toLocaleLowerCase s =
     map (\<lambda>c. case map_of (zip ''ABCDEFGHIJKLMNOPQRSTUVWXYZ'' ''abcdefghijklmnopqrstuvwxyz'') c of
                None \<Rightarrow> c | Some l \<Rightarrow> l) s"

text \<open>The decimal text of an integer, as a template literal prints it.\<close>

fun show_nat :: "nat \<Rightarrow> string" where
  "show_nat n =
     (if n < 10 then [''0123456789'' ! n]
      else show_nat (n div 10) @ [''0123456789'' ! (n mod 10)])"

definition show_int :: "int \<Rightarrow> string" where
  "show_int i = (if i < 0 then ''-'' @ show_nat (nat (- i)) else show_nat (nat i))"

section \<open>Regular expressions\<close>

text \<open>
  The fragment of JavaScript's regular expressions the program uses: character sets,
  sequence, alternation, the greedy star, \<^verbatim>\<open>^\<close> and \<^verbatim>\<open>$\<close> without the \<^verbatim>\<open>m\<close>
  flag (the one pattern that carries the flag has neither), the negative lookahead and
  capturing groups. A match state is the text before the current position (reversed), the
  text after it, and the captures made so far.

  \<open>matches r st\<close> lists the states in which a match of \<open>r\<close> started in \<open>st\<close> can end, in
  the order in which the backtracking matcher of the language tries them: the head of the
  list is the match it reports. An iteration of a star that consumes nothing is rejected,
  as the language does.
\<close>

datatype regex =
    Chars "char \<Rightarrow> bool"
  | Empty
  | Seq regex regex
  | Alt regex regex
  | Star regex
  | Caret
  | Dollar
  | NegLookahead regex
  | Group nat regex

type_synonym captures = "(nat \<times> string) list"

type_synonym mstate = "string \<times> string \<times> captures"

function matches :: "regex \<Rightarrow> mstate \<Rightarrow> mstate list" where
  "matches (Chars P) (prev, rest, caps) =
     (case rest of [] \<Rightarrow> [] | c # cs \<Rightarrow> if P c then [(c # prev, cs, caps)] else [])"
| "matches Empty st = [st]"
| "matches (Seq r1 r2) st = concat (map (matches r2) (matches r1 st))"
| "matches (Alt r1 r2) st = matches r1 st @ matches r2 st"
| "matches (Star r) (prev, rest, caps) =
     concat (map (\<lambda>(prev', rest', caps').
                    if length rest' < length rest then matches (Star r) (prev', rest', caps')
                    else [])
                 (matches r (prev, rest, caps)))
     @ [(prev, rest, caps)]"
| "matches Caret (prev, rest, caps) = (if prev = [] then [(prev, rest, caps)] else [])"
| "matches Dollar (prev, rest, caps) = (if rest = [] then [(prev, rest, caps)] else [])"
| "matches (NegLookahead r) st = (if matches r st = [] then [st] else [])"
| "matches (Group n r) (prev, rest, caps) =
     map (\<lambda>(prev', rest', caps').
            (prev', rest', (n, take (length rest - length rest') rest) # caps'))
         (matches r (prev, rest, caps))"
  by pat_completeness auto
termination
  by (relation "measures [\<lambda>(r, st). size r, \<lambda>(r, (prev, rest, caps)). length rest]") auto

text \<open>The derived forms: \<^verbatim>\<open>r+\<close>, \<^verbatim>\<open>r?\<close>, a literal string, and a literal string under the
  \<^verbatim>\<open>i\<close> flag.\<close>

definition Plus :: "regex \<Rightarrow> regex" where
  "Plus r = Seq r (Star r)"

definition Opt :: "regex \<Rightarrow> regex" where
  "Opt r = Alt r Empty"

definition Lit :: "string \<Rightarrow> regex" where
  "Lit s = foldr (\<lambda>c r. Seq (Chars (\<lambda>x. x = c)) r) s Empty"

definition LitI :: "string \<Rightarrow> regex" where
  "LitI s = foldr (\<lambda>c r. Seq (Chars (\<lambda>x. Canonicalize x = Canonicalize c)) r) s Empty"

text \<open>\<^verbatim>\<open>\d\<close>, \<^verbatim>\<open>\s\<close> and \<^verbatim>\<open>.\<close> on Latin-1 text. The dot matches everything but a line
  terminator; \<^verbatim>\<open>\s\<close> is the white space and the line terminators.\<close>

definition digit :: "char \<Rightarrow> bool" where
  "digit c = (c \<in> set ''0123456789'')"

definition space :: "char \<Rightarrow> bool" where
  "space c = (c \<in> set [CHR 0x09, CHR 0x0A, CHR 0x0B, CHR 0x0C, CHR 0x0D, CHR 0x20, CHR 0xA0])"

definition dot :: "char \<Rightarrow> bool" where
  "dot c = (c \<noteq> CHR 0x0A \<and> c \<noteq> CHR 0x0D)"

text \<open>\<^verbatim>\<open>RegExp.prototype.exec\<close> on a pattern without the \<^verbatim>\<open>g\<close> flag: the first start
  position, from the left, at which the pattern matches, with the state the match ends in.
  The result is the text before the match (reversed), the matched text, the text after it
  and the captures.\<close>

fun search :: "regex \<Rightarrow> string \<Rightarrow> string \<Rightarrow> (string \<times> string \<times> string \<times> captures) option" where
  "search r prev [] =
     (case matches r (prev, [], []) of
        [] \<Rightarrow> None
      | (prev', rest', caps) # _ \<Rightarrow> Some (prev, [], rest', caps))"
| "search r prev (c # cs) =
     (case matches r (prev, c # cs, []) of
        [] \<Rightarrow> search r (c # prev) cs
      | (prev', rest', caps) # _ \<Rightarrow>
          Some (prev, take (length (c # cs) - length rest') (c # cs), rest', caps))"

definition exec :: "regex \<Rightarrow> string \<Rightarrow> (string \<times> string \<times> string \<times> captures) option" where
  "exec r s = search r [] s"

definition test :: "regex \<Rightarrow> string \<Rightarrow> bool" where
  "test r s = (exec r s \<noteq> None)"

text \<open>\<^verbatim>\<open>String.prototype.replace(r, f)\<close> for a pattern with the \<^verbatim>\<open>g\<close> flag: every match,
  from the left and without overlap, is replaced by \<open>f\<close> of the matched text; after an empty
  match the search moves on by one character.\<close>

function replace :: "regex \<Rightarrow> (string \<Rightarrow> string) \<Rightarrow> string \<Rightarrow> string \<Rightarrow> string" where
  "replace r f prev [] =
     (case matches r (prev, [], []) of [] \<Rightarrow> [] | _ # _ \<Rightarrow> f [])"
| "replace r f prev (c # cs) =
     (case matches r (prev, c # cs, []) of
        [] \<Rightarrow> c # replace r f (c # prev) cs
      | (prev', rest', caps) # _ \<Rightarrow>
          if length rest' < length (c # cs)
          then f (take (length (c # cs) - length rest') (c # cs)) @ replace r f prev' rest'
          else f [] @ c # replace r f (c # prev) cs)"
  by pat_completeness auto
termination
  by (relation "measure (\<lambda>(r, f, prev, rest). length rest)") auto

section \<open>shared.ts\<close>

datatype LogType = ERROR | WARN | INFO

record IServerLog =
  type :: LogType
  content :: string

datatype ServerStatus = STOPPED | CRASHED | STARTING | RUNNING | STOPPING

text \<open>The string a \<^verbatim>\<open>ServerStatus\<close> is at run time.\<close>

fun ServerStatus_string :: "ServerStatus \<Rightarrow> string" where
  "ServerStatus_string STOPPED = ''STOPPED''"
| "ServerStatus_string CRASHED = ''CRASHED''"
| "ServerStatus_string STARTING = ''STARTING''"
| "ServerStatus_string RUNNING = ''RUNNING''"
| "ServerStatus_string STOPPING = ''STOPPING''"

text \<open>What the program throws: an error with its message. \<open>ServerStateError\<close> is the
  class of shared.ts; \<open>Error\<close> stands for every other error, the rejections of the file
  system and of the network among them.\<close>

datatype error = ServerStateError string | Error string

fun message :: "error \<Rightarrow> string" where
  "message (ServerStateError m) = m"
| "message (Error m) = m"

definition new_ServerStateError :: "ServerStatus \<Rightarrow> error" where
  "new_ServerStateError state =
     ServerStateError (''Illegal Action: The server is currently ''
                       @ toLocaleLowerCase (ServerStatus_string state) @ ''.'')"

section \<open>The host\<close>

text \<open>
  The file system maps a path to the text of the file there (read and written as UTF-8).
  \<^verbatim>\<open>readFile\<close> rejects when there is no file; \<^verbatim>\<open>writeFile\<close> is taken to succeed.
  \<^verbatim>\<open>os.EOL\<close> is a line feed, or carriage return and line feed on Windows.
\<close>

type_synonym files = "string \<rightharpoonup> string"

definition readFile :: "files \<Rightarrow> string \<Rightarrow> error + string" where
  "readFile fs p =
     (case fs p of None \<Rightarrow> Inl (Error (''ENOENT: no such file or directory, open '' @ p))
                 | Some text \<Rightarrow> Inr text)"

definition writeFile :: "files \<Rightarrow> string \<Rightarrow> string \<Rightarrow> files" where
  "writeFile fs p text = fs(p \<mapsto> text)"

definition existsSync :: "files \<Rightarrow> string \<Rightarrow> bool" where
  "existsSync fs p = (fs p \<noteq> None)"

datatype Platform = posix | win32

fun EOL :: "Platform \<Rightarrow> string" where
  "EOL posix = [LF]"
| "EOL win32 = [CR, LF]"

text \<open>\<^verbatim>\<open>path.join\<close> of a directory and a file name (the normalisation of the directory's
  own text is left out).\<close>

definition path_join :: "string \<Rightarrow> string \<Rightarrow> string" where
  "path_join dir file = dir @ ''/'' @ file"

section \<open>versions.ts: the data\<close>

text \<open>
  Field names follow the source; a prime is added where the name is taken: \<open>id'\<close> and
  \<open>type'\<close> are the \<^verbatim>\<open>id\<close> and \<^verbatim>\<open>type\<close> of a version, \<open>release'\<close> and \<open>snapshot'\<close> the two
  fields of \<^verbatim>\<open>latest\<close>.
\<close>

datatype VersionType = release | snapshot | old_beta | old_alpha

record IVersionDownload =
  sha1 :: string
  size' :: nat
  url :: string

record IVersionInfo =
  id' :: string
  type' :: VersionType
  info_url :: string
  time :: string
  releaseTime :: string
  info_sha1 :: string
  complianceLevel :: nat

record Latest =
  release' :: string
  snapshot' :: string

record IVersionManifest =
  latest :: Latest
  versions :: "IVersionInfo list"

text \<open>Of the metadata of one version (\<^verbatim>\<open>IVersion\<close>), its \<^verbatim>\<open>id\<close> and the optional entries of
  \<^verbatim>\<open>downloads\<close> are read.\<close>

record IVersion =
  version_id :: string
  client_mappings :: "IVersionDownload option"
  server :: "IVersionDownload option"
  server_mappings :: "IVersionDownload option"

section \<open>server.ts: the patterns\<close>

definition timestamp :: regex where
  "timestamp = Seq (Lit ''['') (Seq (Plus (Chars digit)) (Seq (Lit '':'') (Seq (Plus (Chars digit))
                 (Seq (Lit '':'') (Seq (Plus (Chars digit)) (Lit ''] ''))))))"

text \<open>\<^verbatim>\<open>/(\[\d+:\d+:\d+\] \[(?:ServerMain|Server thread)\/)/g\<close>\<close>

definition PrefixPattern :: regex where
  "PrefixPattern =
     Group 1 (Seq timestamp (Seq (Lit ''['')
                (Seq (Alt (Lit ''ServerMain'') (Lit ''Server thread'')) (Lit ''/''))))"

text \<open>The timestamp and thread prefix the three key patterns share, under the \<^verbatim>\<open>i\<close> flag:
  \<^verbatim>\<open>\[\d+:\d+:\d+\] \[(ServerMain|Server thread)\/INFO\]: \<close>\<close>

definition InfoPrefix :: regex where
  "InfoPrefix =
     Seq timestamp (Seq (LitI ''['')
       (Seq (Group 1 (Alt (LitI ''ServerMain'') (LitI ''Server thread''))) (LitI ''/INFO]: '')))"

text \<open>\<^verbatim>\<open>/\[\d+:\d+:\d+\] \[(ServerMain|Server thread)\/INFO\]: Done \([^)]+\)!/i\<close>\<close>

definition DonePattern :: regex where
  "DonePattern =
     Seq InfoPrefix (Seq (LitI ''Done ('') (Seq (Plus (Chars (\<lambda>c. c \<noteq> CHR '')''))) (LitI '')!'')))"

text \<open>\<^verbatim>\<open>/\[\d+:\d+:\d+\] \[(ServerMain|Server thread)\/INFO\]: Stopping server/i\<close>\<close>

definition StopPattern :: regex where
  "StopPattern = Seq InfoPrefix (LitI ''Stopping server'')"

text \<open>\<^verbatim>\<open>/\[\d+:\d+:\d+\] \[(ServerMain|Server thread)\/INFO\]: You need to agree to the EULA
  in order to run the server\. Go to eula.txt for more info\.(?:\n|\r\n)?/i\<close>
  (the dot of \<^verbatim>\<open>eula.txt\<close> is not escaped in the source).\<close>

definition EulaPattern :: regex where
  "EulaPattern =
     Seq InfoPrefix
       (Seq (LitI ''You need to agree to the EULA in order to run the server. Go to eula'')
         (Seq (Chars dot)
           (Seq (LitI ''txt for more info.'') (Opt (Alt (Lit [LF]) (Lit [CR, LF]))))))"

text \<open>\<^verbatim>\<open>/\/WARN\]/i\<close> and \<^verbatim>\<open>/\/ERROR\]/i\<close>\<close>

definition WarnPattern :: regex where
  "WarnPattern = LitI ''/WARN]''"

definition ErrorPattern :: regex where
  "ErrorPattern = LitI ''/ERROR]''"

section \<open>server.ts: the Server class\<close>

text \<open>
  The child process, as far as the class uses it: what it was spawned with and the chunks
  written to its standard input so far. The events the server emits are kept in the order
  of emission. The field \<^verbatim>\<open>javaPath\<close> and the getter \<^verbatim>\<open>env\<close> that reads it (the environment
  handed to the child) are left out.
\<close>

record ChildProcess =
  spawnargs :: "string list"
  cwd :: string
  stdin :: "string list"

datatype event = stateUpdate ServerStatus | messageEvent IServerLog | eulaEvent

record Server =
  version :: "string option"
  minMemory :: nat
  softMaxMemory :: nat
  maxMemory :: nat
  path :: string
  state :: ServerStatus
  logs :: "IServerLog list"
  process :: "ChildProcess option"
  emitted :: "event list"

text \<open>The constructor, called without options.\<close>

definition new_Server :: "string option \<Rightarrow> Server" where
  "new_Server v =
     \<lparr>version = v, minMemory = 256, softMaxMemory = 512, maxMemory = 1024, path = ''./server'',
      state = STOPPED, logs = [], process = None, emitted = []\<rparr>"

text \<open>The setter of \<^verbatim>\<open>state\<close> stores the state and emits \<^verbatim>\<open>stateUpdate\<close>.\<close>

definition set_state :: "ServerStatus \<Rightarrow> Server \<Rightarrow> Server" where
  "set_state st s = s\<lparr>state := st, emitted := emitted s @ [stateUpdate st]\<rparr>"

definition canStart :: "Server \<Rightarrow> bool" where
  "canStart s = (state s = STOPPED \<or> state s = CRASHED)"

definition canStop :: "Server \<Rightarrow> bool" where
  "canStop s = (state s = RUNNING)"

text \<open>\<^verbatim>\<open>error\<close>, \<^verbatim>\<open>warn\<close> and \<^verbatim>\<open>log\<close>: with the prefix, the message is stamped with the
  time of day \<open>now\<close> (the text \<^verbatim>\<open>toLocaleTimeString\<close> returns); the entry is emitted as a
  \<^verbatim>\<open>message\<close> event and pushed on the log.\<close>

definition stamp :: "string \<Rightarrow> string \<Rightarrow> bool \<Rightarrow> string" where
  "stamp now msg prefix = (if prefix then ''['' @ now @ ''] [MCServerJS] '' @ msg else msg)"

definition push_log :: "LogType \<Rightarrow> string \<Rightarrow> Server \<Rightarrow> Server" where
  "push_log t msg s =
     (let log = \<lparr>type = t, content = msg\<rparr>
      in s\<lparr>emitted := emitted s @ [messageEvent log], logs := logs s @ [log]\<rparr>)"

definition error :: "string \<Rightarrow> string \<Rightarrow> bool \<Rightarrow> Server \<Rightarrow> Server" where
  "error now msg prefix s = push_log ERROR (stamp now msg prefix) s"

definition warn :: "string \<Rightarrow> string \<Rightarrow> bool \<Rightarrow> Server \<Rightarrow> Server" where
  "warn now msg prefix s = push_log WARN (stamp now msg prefix) s"

definition log :: "string \<Rightarrow> string \<Rightarrow> bool \<Rightarrow> Server \<Rightarrow> Server" where
  "log now msg prefix s = push_log INFO (stamp now msg prefix) s"

text \<open>The \<^verbatim>\<open>catch\<close> block of \<^verbatim>\<open>start\<close>, \<^verbatim>\<open>execute\<close> and \<^verbatim>\<open>stop\<close>: the message of the error is
  logged and the error is thrown again.\<close>

definition rethrow :: "string \<Rightarrow> error \<Rightarrow> Server \<Rightarrow> (error + 'a) \<times> Server" where
  "rethrow now err s = (Inl err, error now (message err) True s)"

subsection \<open>The handlers of the child process\<close>

text \<open>The body of \<^verbatim>\<open>messages.forEach\<close> in the handler of \<^verbatim>\<open>stdout\<close>: the severity of the
  message, then the three key messages.\<close>

definition on_message :: "string \<Rightarrow> string \<Rightarrow> Server \<Rightarrow> Server" where
  "on_message now msg s =
     (let s = (if test WarnPattern msg then warn now msg False s
               else if test ErrorPattern msg then error now msg False s
               else log now msg False s)
      in if test DonePattern msg then
           set_state RUNNING (log now ''Server is running...'' True s)
         else if test StopPattern msg then
           set_state STOPPING (log now ''Server is stopping...'' True s)
         else if test EulaPattern msg then
           (let s = warn now ''Server was unable to start, the user must accept the EULA...'' True s;
                s = set_state STOPPING s
            in s\<lparr>emitted := emitted s @ [eulaEvent]\<rparr>)
         else s)"

text \<open>The messages of a chunk: a line feed is put before every prefix, the text is split
  at the line feeds, and the empty pieces are dropped.\<close>

definition messages :: "string \<Rightarrow> string list" where
  "messages data =
     filter (\<lambda>m. m \<noteq> []) (split LF (replace PrefixPattern (\<lambda>m. LF # m) [] data))"

definition on_stdout_data :: "string \<Rightarrow> string \<Rightarrow> Server \<Rightarrow> Server" where
  "on_stdout_data now data s = foldl (\<lambda>s msg. on_message now msg s) s (messages data)"

text \<open>The handler of \<^verbatim>\<open>exit\<close>: \<open>code\<close> is \<open>None\<close> for \<^verbatim>\<open>null\<close>, when a signal ended the
  process.\<close>

definition on_exit :: "string \<Rightarrow> int option \<Rightarrow> string \<Rightarrow> Server \<Rightarrow> Server" where
  "on_exit now code signal s =
     (let s = set_state (if code = Some 0 then STOPPED else CRASHED) s;
          s = (case code of
                 None \<Rightarrow> error now (''Server exited with signal: '' @ signal) True s
               | Some c \<Rightarrow>
                   if c \<noteq> 0 then error now (''Server exited with code: '' @ show_int c) True s
                   else log now ''Server Stopped'' True s)
      in s\<lparr>process := None\<rparr>)"

text \<open>The handler of \<^verbatim>\<open>error\<close>.\<close>

definition on_error :: "string \<Rightarrow> string \<Rightarrow> Server \<Rightarrow> Server" where
  "on_error now err_message s =
     set_state CRASHED (error now (''Failed to start the server. '' @ err_message) True s)"

subsection \<open>start, execute, stop, quit\<close>

text \<open>
  What \<^verbatim>\<open>start\<close> awaits comes from outside: the manifest (\<^verbatim>\<open>Server.Versions\<close>), whether
  the directory and the jar exist, whether \<^verbatim>\<open>mkdir\<close> and the download fail, and the reply
  to the request for the version's metadata, which is an object with a \<^verbatim>\<open>status\<close> key or
  the metadata.
\<close>

datatype VersionReply = WithStatus | Metadata IVersion

record StartEnv =
  Versions_reply :: "error + IVersionManifest"
  path_exists :: bool
  mkdir_error :: "error option"
  jar_exists :: bool
  request_reply :: "error + VersionReply"
  download_error :: "error option"

definition args :: "Server \<Rightarrow> string list" where
  "args s =
     [''-Xms'' @ show_nat (minMemory s) @ ''M'',
      ''-XX:SoftMaxHeapSize='' @ show_nat (softMaxMemory s) @ ''M'',
      ''-Xmx'' @ show_nat (maxMemory s) @ ''M'',
      ''-jar'', ''server.jar'', ''--nogui'']"

definition jar :: "Server \<Rightarrow> string" where
  "jar s = path_join (path s) ''server.jar''"

definition eula :: "Server \<Rightarrow> string" where
  "eula s = path_join (path s) ''eula.txt''"

definition prop' :: "Server \<Rightarrow> string" where
  "prop' s = path_join (path s) ''server.properties''"

definition ensure_directory :: "string \<Rightarrow> StartEnv \<Rightarrow> Server \<Rightarrow> (error + unit) \<times> Server" where
  "ensure_directory now env s =
     (if \<not> path_exists env then
        (let s = warn now ''Creating server directory...'' True s
         in case mkdir_error env of Some err \<Rightarrow> (Inl err, s) | None \<Rightarrow> (Inr (), s))
      else (Inr (), s))"

definition ensure_jar :: "string \<Rightarrow> StartEnv \<Rightarrow> Server \<Rightarrow> (error + unit) \<times> Server" where
  "ensure_jar now env s =
     (if \<not> jar_exists env then
        (let s = warn now ''Downloading server jar...'' True s
         in case request_reply env of
              Inl err \<Rightarrow> (Inl err, s)
            | Inr WithStatus \<Rightarrow>
                (Inl (Error ''Failed to download version from version info''), set_state CRASHED s)
            | Inr (Metadata v) \<Rightarrow>
                (case server v of
                   None \<Rightarrow> (Inl (Error ''Cannot read properties of undefined''), set_state CRASHED s)
                 | Some d \<Rightarrow>
                     (case download_error env of
                        Some err \<Rightarrow> (Inl err, set_state CRASHED s)
                      | None \<Rightarrow> (Inr (), s))))
      else (Inr (), s))"

text \<open>The \<^verbatim>\<open>try\<close> block of \<^verbatim>\<open>start\<close>.\<close>

definition start_try :: "string \<Rightarrow> StartEnv \<Rightarrow> Server \<Rightarrow> (error + unit) \<times> Server" where
  "start_try now env s =
     (if \<not> canStart s then (Inl (new_ServerStateError (state s)), s)
      else
        (let s = set_state STARTING s;
             s = log now ''Attempting to start server...'' True s
         in (case Versions_reply env of
               Inl err \<Rightarrow> (Inl err, s)
             | Inr vs \<Rightarrow>
                 (let s = (if version s = None \<or> version s = Some []
                           then s\<lparr>version := Some (release' (latest vs))\<rparr> else s)
                  in (case find (\<lambda>v. Some (id' v) = version s) (versions vs) of
                        None \<Rightarrow>
                          (Inl (Error ''Unable to find version info.''), set_state CRASHED s)
                      | Some versionInfo \<Rightarrow>
                          (case ensure_directory now env s of
                             (Inl err, s) \<Rightarrow> (Inl err, s)
                           | (Inr u, s) \<Rightarrow>
                               (case ensure_jar now env s of
                                  (Inl err, s) \<Rightarrow> (Inl err, s)
                                | (Inr u, s) \<Rightarrow>
                                    (let s = log now ''Starting child process...'' True s
                                     in (Inr (),
                                         s\<lparr>process :=
                                             Some \<lparr>spawnargs = args s, cwd = path s,
                                                    stdin = []\<rparr>\<rparr>)))))))))"

definition start :: "string \<Rightarrow> StartEnv \<Rightarrow> Server \<Rightarrow> (error + unit) \<times> Server" where
  "start now env s =
     (case start_try now env s of
        (Inl err, s) \<Rightarrow> rethrow now err s
      | (Inr u, s) \<Rightarrow> (Inr u, s))"

text \<open>\<^verbatim>\<open>this.process?.stdin?.write(chunk)\<close>\<close>

definition write_stdin :: "string \<Rightarrow> Server \<Rightarrow> Server" where
  "write_stdin chunk s =
     s\<lparr>process := map_option (\<lambda>p. p\<lparr>stdin := stdin p @ [chunk]\<rparr>) (process s)\<rparr>"

definition execute :: "string \<Rightarrow> Platform \<Rightarrow> string \<Rightarrow> Server \<Rightarrow> (error + unit) \<times> Server" where
  "execute now os command s =
     (if \<not> canStop s then rethrow now (new_ServerStateError (state s)) s
      else
        let s = log now command True s;
            s = write_stdin command s;
            s = write_stdin (EOL os) s
        in (Inr (), s))"

definition stop :: "string \<Rightarrow> Platform \<Rightarrow> Server \<Rightarrow> (error + unit) \<times> Server" where
  "stop now os s =
     (if \<not> canStop s then rethrow now (new_ServerStateError (state s)) s
      else
        let s = log now ''Attempting to stop the server...'' True s;
            s = write_stdin ''stop'' s;
            s = write_stdin (EOL os) s
        in (Inr (), s))"

text \<open>\<^verbatim>\<open>quit\<close> spins on \<^verbatim>\<open>canStop\<close> and nothing else runs meanwhile: in a state that can
  neither start nor stop it does not return (\<open>None\<close>).\<close>

definition quit :: "Platform \<Rightarrow> Server \<Rightarrow> Server option" where
  "quit os s =
     (if canStart s then Some s
      else if \<not> canStop s then None
      else Some (write_stdin (EOL os) (write_stdin ''stop'' s)))"

subsection \<open>acceptEula\<close>

text \<open>\<^verbatim>\<open>String.prototype.replace\<close> with a string pattern: the first occurrence is replaced.\<close>

fun replace_first :: "string \<Rightarrow> string \<Rightarrow> string \<Rightarrow> string" where
  "replace_first pat rep [] = (if pat = [] then rep else [])"
| "replace_first pat rep (c # cs) =
     (if take (length pat) (c # cs) = pat then rep @ drop (length pat) (c # cs)
      else c # replace_first pat rep cs)"

text \<open>
  \<^verbatim>\<open>acceptEula\<close> of the Server class in server.ts: without acceptance nothing happens; with
  it the first \<^verbatim>\<open>eula=false\<close> of eula.txt becomes \<^verbatim>\<open>eula=true\<close> and the server is started.
  The promise resolves to \<^verbatim>\<open>undefined\<close> on both paths.
\<close>

definition server_ts_acceptEula ::
  "string \<Rightarrow> StartEnv \<Rightarrow> bool \<Rightarrow> files \<Rightarrow> Server \<Rightarrow> (error + unit) \<times> files \<times> Server" where
  "server_ts_acceptEula now env accept fs s =
     (if \<not> accept then (Inr (), fs, s)
      else (case readFile fs (eula s) of
              Inl err \<Rightarrow> (Inl err, fs, s)
            | Inr text \<Rightarrow>
                (let fs = writeFile fs (eula s) (replace_first ''eula=false'' ''eula=true'' text)
                 in (case start now env s of (r, s) \<Rightarrow> (r, fs, s)))))"

text \<open>
  \<^verbatim>\<open>acceptEula\<close> of the Server class in servers/server.ts: every match of
  \<^verbatim>\<open>/eula=(true|false)/gim\<close> in eula.txt is replaced by \<^verbatim>\<open>eula=\<close> and the boolean, and the
  boolean is returned. The fields of the class it reads are those of the class above.
\<close>

definition EulaLinePattern :: regex where
  "EulaLinePattern = Seq (LitI ''eula='') (Group 1 (Alt (LitI ''true'') (LitI ''false'')))"

definition show_bool :: "bool \<Rightarrow> string" where
  "show_bool b = (if b then ''true'' else ''false'')"

definition acceptEula :: "bool \<Rightarrow> files \<Rightarrow> Server \<Rightarrow> (error + bool) \<times> files \<times> Server" where
  "acceptEula accept fs s =
     (case readFile fs (eula s) of
        Inl err \<Rightarrow> (Inl err, fs, s)
      | Inr text \<Rightarrow>
          (Inr accept,
           writeFile fs (eula s)
             (replace EulaLinePattern (\<lambda>m. ''eula='' @ show_bool accept) [] text),
           s))"

section \<open>properties.ts: the Properties class\<close>

text \<open>
  A line of the file in memory (\<^verbatim>\<open>PropertyData = IProperty | null | string\<close>): a property,
  \<^verbatim>\<open>null\<close>, or the text of a comment. The field \<^verbatim>\<open>value\<close> is written \<open>value'\<close>, the
  field \<^verbatim>\<open>path\<close> of the class \<open>path'\<close>.
\<close>

record IProperty =
  name :: string
  value' :: string

datatype PropertyData = Property IProperty | Null | Comment string

record Properties =
  data :: "PropertyData list"
  path' :: string

text \<open>\<^verbatim>\<open>/^\s*(?!#)(.+)=(.*)$/i\<close> and \<^verbatim>\<open>/^#.+$/i\<close>\<close>

definition PropertyPattern :: regex where
  "PropertyPattern =
     Seq Caret (Seq (Star (Chars space)) (Seq (NegLookahead (LitI ''#''))
       (Seq (Group 1 (Plus (Chars dot))) (Seq (LitI ''='')
         (Seq (Group 2 (Star (Chars dot))) Dollar)))))"

definition CommentPattern :: regex where
  "CommentPattern = Seq Caret (Seq (LitI ''#'') (Seq (Plus (Chars dot)) Dollar))"

text \<open>\<^verbatim>\<open>/\r?\n/gm\<close>\<close>

definition NewlinePattern :: regex where
  "NewlinePattern = Seq (Opt (Lit [CR])) (Lit [LF])"

text \<open>The text of capturing group \<open>n\<close> in a match (\<^verbatim>\<open>match[n]\<close>); the last capture made
  for the group counts.\<close>

definition group :: "captures \<Rightarrow> nat \<Rightarrow> string" where
  "group caps n = (case map_of caps n of None \<Rightarrow> [] | Some text \<Rightarrow> text)"

text \<open>The function \<^verbatim>\<open>loadProperties\<close> maps over the lines.\<close>

definition parse_line :: "string \<Rightarrow> PropertyData" where
  "parse_line line =
     (if test CommentPattern line then Comment line
      else (case exec PropertyPattern line of
              Some (prev, matched, rest, caps) \<Rightarrow>
                Property \<lparr>name = group caps 1, value' = group caps 2\<rparr>
            | None \<Rightarrow> Null))"

definition loadProperties :: "files \<Rightarrow> Properties \<Rightarrow> (error + unit) \<times> Properties" where
  "loadProperties fs p =
     (case readFile fs (path' p) of
        Inl err \<Rightarrow> (Inl err, p)
      | Inr content' \<Rightarrow>
          (Inr (),
           p\<lparr>data := map parse_line (split LF (replace NewlinePattern (\<lambda>m. [LF]) [] content'))\<rparr>))"

text \<open>The type guard of \<^verbatim>\<open>getProperties\<close> and \<^verbatim>\<open>setProperties\<close>: the lines that are
  properties.\<close>

fun properties_of :: "PropertyData list \<Rightarrow> IProperty list" where
  "properties_of [] = []"
| "properties_of (Property l # ls) = l # properties_of ls"
| "properties_of (Null # ls) = properties_of ls"
| "properties_of (Comment c # ls) = properties_of ls"

definition getProperties :: "files \<Rightarrow> Properties \<Rightarrow> (error + IProperty list) \<times> Properties" where
  "getProperties fs p =
     (if length (data p) = 0 \<and> existsSync fs (path' p) then
        (case loadProperties fs p of
           (Inl err, p) \<Rightarrow> (Inl err, p)
         | (Inr u, p) \<Rightarrow> (Inr (properties_of (data p)), p))
      else (Inr (properties_of (data p)), p))"

definition getProperty ::
  "string \<Rightarrow> files \<Rightarrow> Properties \<Rightarrow> (error + IProperty option) \<times> Properties" where
  "getProperty n fs p =
     (case getProperties fs p of
        (Inl err, p) \<Rightarrow> (Inl err, p)
      | (Inr properties, p) \<Rightarrow> (Inr (find (\<lambda>prop. name prop = n) properties), p))"

text \<open>The two maps of \<^verbatim>\<open>setProperties\<close>: a property line is replaced by the first given
  property of its name, if there is one; a line is written as the empty text, as
  \<^verbatim>\<open>name=value\<close>, or as the comment it is.\<close>

definition update_line :: "IProperty list \<Rightarrow> PropertyData \<Rightarrow> PropertyData" where
  "update_line properties line =
     (case line of
        Null \<Rightarrow> line
      | Comment c \<Rightarrow> line
      | Property l \<Rightarrow>
          (case find (\<lambda>prop. name prop = name l) properties of
             Some prop \<Rightarrow> Property prop
           | None \<Rightarrow> line))"

definition render_line :: "PropertyData \<Rightarrow> string" where
  "render_line line =
     (case line of
        Null \<Rightarrow> []
      | Comment c \<Rightarrow> c
      | Property l \<Rightarrow> name l @ ''='' @ value' l)"

definition setProperties ::
  "Platform \<Rightarrow> IProperty list \<Rightarrow> files \<Rightarrow> Properties \<Rightarrow> IProperty list \<times> files \<times> Properties" where
  "setProperties os properties fs p =
     (let newData = map (update_line properties) (data p);
          content' = join (EOL os) (map render_line newData)
      in (properties_of newData, writeFile fs (path' p) content', p\<lparr>data := newData\<rparr>))"

definition setProperty ::
  "Platform \<Rightarrow> string \<Rightarrow> string \<Rightarrow> files \<Rightarrow> Properties
     \<Rightarrow> IProperty option \<times> files \<times> Properties" where
  "setProperty os n v fs p =
     (case setProperties os [\<lparr>name = n, value' = v\<rparr>] fs p of
        (properties, fs, p) \<Rightarrow> (find (\<lambda>prop. name prop = n) properties, fs, p))"

section \<open>versions.ts: the Versions class\<close>

text \<open>
  The static fields of the class: the memoised promise of the manifest and the facts per
  version id, both \<^verbatim>\<open>undefined\<close> at first. A promise is named by the position of its
  request among the requests issued; \<open>requests\<close> lists the URLs \<^verbatim>\<open>request\<close> was called
  with, in order. The file versions.json is kept as the properties of the object it
  holds once parsed (\<open>None\<close> when there is no file).
\<close>

record Facts =
  hasClientMappings :: bool
  hasServer :: bool
  hasServerMappings :: bool

text \<open>
  The \<^verbatim>\<open>Record<string, ...>\<close> of the facts is a plain object: it has the properties of its
  own, and inherits those of its prototype. The prototype is \<^verbatim>\<open>Object.prototype\<close>
  (\<open>proto = None\<close>) until an assignment to \<^verbatim>\<open>__proto__\<close> replaces it by the object assigned,
  which inherits from \<^verbatim>\<open>Object.prototype\<close> in turn. \<^verbatim>\<open>Object.prototype\<close> is taken as the
  language defines it: the members listed are functions, but for the accessor
  \<^verbatim>\<open>__proto__\<close>, which reads and writes the prototype of the object it is called on.
\<close>

record VersionData =
  own :: "string \<rightharpoonup> Facts"
  proto :: "Facts option"

definition Object_prototype :: "string list" where
  "Object_prototype =
     [''constructor'', ''__defineGetter__'', ''__defineSetter__'', ''hasOwnProperty'',
      ''__lookupGetter__'', ''__lookupSetter__'', ''isPrototypeOf'', ''propertyIsEnumerable'',
      ''toString'', ''valueOf'', ''__proto__'', ''toLocaleString'']"

text \<open>The values \<^verbatim>\<open>versionData[id]\<close> can be: \<^verbatim>\<open>undefined\<close>, a record of facts, a boolean (a
  field of a record that has become the prototype), \<^verbatim>\<open>Object.prototype\<close> itself, or one of
  its functions.\<close>

datatype member = Undefined | Object Facts | Boolean bool | ObjectPrototype | Function

definition field_of :: "Facts \<Rightarrow> string \<Rightarrow> bool option" where
  "field_of facts k =
     (if k = ''hasClientMappings'' then Some (hasClientMappings facts)
      else if k = ''hasServer'' then Some (hasServer facts)
      else if k = ''hasServerMappings'' then Some (hasServerMappings facts)
      else None)"

text \<open>\<^verbatim>\<open>versionData[k]\<close>, read: the property of its own, or else that of the prototype, or
  else that of \<^verbatim>\<open>Object.prototype\<close>.\<close>

definition lookup :: "VersionData \<Rightarrow> string \<Rightarrow> member" where
  "lookup versionData k =
     (case own versionData k of
        Some facts \<Rightarrow> Object facts
      | None \<Rightarrow>
          (case proto versionData of
             None \<Rightarrow>
               (if k = ''__proto__'' then ObjectPrototype
                else if k \<in> set Object_prototype then Function
                else Undefined)
           | Some p \<Rightarrow>
               (case field_of p k of
                  Some b \<Rightarrow> Boolean b
                | None \<Rightarrow>
                    (if k = ''__proto__'' then Object p
                     else if k \<in> set Object_prototype then Function
                     else Undefined))))"

text \<open>\<^verbatim>\<open>versionData[k] = facts\<close>: a property of its own is written or made, but for the key
  \<^verbatim>\<open>__proto__\<close> when the object has no such property of its own: then the setter it
  inherits makes \<^verbatim>\<open>facts\<close> the prototype.\<close>

definition assign :: "VersionData \<Rightarrow> string \<Rightarrow> Facts \<Rightarrow> VersionData" where
  "assign versionData k facts =
     (if k = ''__proto__'' \<and> own versionData k = None then versionData\<lparr>proto := Some facts\<rparr>
      else versionData\<lparr>own := (own versionData)(k \<mapsto> facts)\<rparr>)"

text \<open>\<^verbatim>\<open>x.hasServer\<close> (or one of the other two fields) as a condition: the field of a
  record of facts; a boolean, \<^verbatim>\<open>Object.prototype\<close> and its functions have no such field, and
  what is read is \<^verbatim>\<open>undefined\<close>, which is falsy. (Of \<^verbatim>\<open>undefined\<close> itself no field can be read:
  that case is \<open>filter_facts\<close>'s.)\<close>

fun truthy :: "(Facts \<Rightarrow> bool) \<Rightarrow> member \<Rightarrow> bool" where
  "truthy has (Object facts) = has facts"
| "truthy has x = False"

record Versions =
  manifest' :: "nat option"
  versions' :: "VersionData option"
  requests :: "string list"
  versions_json :: "(string \<rightharpoonup> Facts) option"

text \<open>What the network answers, for the manifest and for the metadata at a URL.\<close>

record Net =
  manifest_reply :: "error + IVersionManifest"
  version_reply :: "string \<Rightarrow> error + IVersion"

definition manifest_url :: string where
  "manifest_url = ''https://piston-meta.mojang.com/mc/game/version_manifest_v2.json''"

text \<open>\<^verbatim>\<open>request(url)\<close> issues the fetch and returns its promise.\<close>

definition request :: "string \<Rightarrow> Versions \<Rightarrow> nat \<times> Versions" where
  "request u st = (length (requests st), st\<lparr>requests := requests st @ [u]\<rparr>)"

text \<open>The getter \<^verbatim>\<open>manifest\<close>.\<close>

definition manifest :: "Versions \<Rightarrow> nat \<times> Versions" where
  "manifest st =
     (case manifest' st of
        None \<Rightarrow> (case request manifest_url st of (p, st) \<Rightarrow> (p, st\<lparr>manifest' := Some p\<rparr>))
      | Some p \<Rightarrow> (p, st))"

text \<open>\<^verbatim>\<open>load\<close> and \<^verbatim>\<open>save\<close>: \<^verbatim>\<open>JSON.parse\<close> makes every key of the file a property of the
  object's own, \<^verbatim>\<open>__proto__\<close> too, and \<^verbatim>\<open>JSON.stringify\<close> writes the properties of the
  object's own.\<close>

definition load :: "Versions \<Rightarrow> VersionData" where
  "load st =
     \<lparr>own = (case versions_json st of None \<Rightarrow> Map.empty | Some d \<Rightarrow> d), proto = None\<rparr>"

definition save :: "Versions \<Rightarrow> Versions" where
  "save st = st\<lparr>versions_json := map_option own (versions' st)\<rparr>"

text \<open>\<^verbatim>\<open>Promise.all\<close> over the requests for the metadata: the promises are made in order,
  and the whole rejects when one of them does (with the first rejection of the list).\<close>

fun request_all :: "Net \<Rightarrow> IVersionInfo list \<Rightarrow> Versions \<Rightarrow> (error + IVersion list) \<times> Versions" where
  "request_all net [] st = (Inr [], st)"
| "request_all net (info # infos) st =
     (case request (info_url info) st of
        (p, st) \<Rightarrow>
          (case request_all net infos st of
             (r, st) \<Rightarrow>
               (case version_reply net (info_url info) of
                  Inl err \<Rightarrow> (Inl err, st)
                | Inr v \<Rightarrow>
                    (case r of Inl err \<Rightarrow> (Inl err, st) | Inr vs \<Rightarrow> (Inr (v # vs), st)))))"

definition facts_of :: "IVersion \<Rightarrow> Facts" where
  "facts_of v =
     \<lparr>hasClientMappings = (client_mappings v \<noteq> None),
      hasServer = (server v \<noteq> None),
      hasServerMappings = (server_mappings v \<noteq> None)\<rparr>"

definition getVersionData ::
  "Net \<Rightarrow> IVersionManifest \<Rightarrow> Versions \<Rightarrow> (error + VersionData) \<times> Versions" where
  "getVersionData net m st =
     (let st = (if versions' st = None then st\<lparr>versions' := Some (load st)\<rparr> else st);
          versionData = the (versions' st);
          filteredInfo = filter (\<lambda>info. lookup versionData (id' info) = Undefined) (versions m)
      in if length filteredInfo \<noteq> 0 then
           (case request_all net filteredInfo st of
              (Inl err, st) \<Rightarrow> (Inl err, st)
            | (Inr vs, st) \<Rightarrow>
                (let versionData =
                       foldl (\<lambda>d v. assign d (version_id v) (facts_of v)) versionData vs;
                     st = save (st\<lparr>versions' := Some versionData\<rparr>)
                 in (Inr versionData, st)))
         else (Inr versionData, st))"

text \<open>\<^verbatim>\<open>manifest.versions.filter(info => versionData[info.id].hasServer)\<close>: reading a field
  of \<^verbatim>\<open>undefined\<close> throws.\<close>

fun filter_facts :: "(Facts \<Rightarrow> bool) \<Rightarrow> VersionData \<Rightarrow> IVersionInfo list \<Rightarrow> error + IVersionInfo list" where
  "filter_facts has versionData [] = Inr []"
| "filter_facts has versionData (info # infos) =
     (if lookup versionData (id' info) = Undefined
      then Inl (Error ''Cannot read properties of undefined'')
      else (case filter_facts has versionData infos of
              Inl err \<Rightarrow> Inl err
            | Inr vs \<Rightarrow>
                Inr (if truthy has (lookup versionData (id' info)) then info # vs else vs)))"

text \<open>\<^verbatim>\<open>versions.find(v => v.type === t)?.id || ''\<close>\<close>

definition latest_of :: "VersionType \<Rightarrow> IVersionInfo list \<Rightarrow> string" where
  "latest_of t vs = (case find (\<lambda>v. type' v = t) vs of None \<Rightarrow> [] | Some v \<Rightarrow> id' v)"

text \<open>The three views share their text but for the fact they filter by.\<close>

definition view ::
  "(Facts \<Rightarrow> bool) \<Rightarrow> Net \<Rightarrow> Versions \<Rightarrow> (error + IVersionManifest) \<times> Versions" where
  "view has net st =
     (case manifest st of
        (p, st) \<Rightarrow>
          (case manifest_reply net of
             Inl err \<Rightarrow> (Inl err, st)
           | Inr m \<Rightarrow>
               (case getVersionData net m st of
                  (Inl err, st) \<Rightarrow> (Inl err, st)
                | (Inr versionData, st) \<Rightarrow>
                    (case filter_facts has versionData (versions m) of
                       Inl err \<Rightarrow> (Inl err, st)
                     | Inr vs \<Rightarrow>
                         (Inr \<lparr>latest = \<lparr>release' = latest_of release vs,
                                          snapshot' = latest_of snapshot vs\<rparr>,
                               versions = vs\<rparr>, st)))))"

definition servers :: "Net \<Rightarrow> Versions \<Rightarrow> (error + IVersionManifest) \<times> Versions" where
  "servers net st = view hasServer net st"

definition serverMappings :: "Net \<Rightarrow> Versions \<Rightarrow> (error + IVersionManifest) \<times> Versions" where
  "serverMappings net st = view hasServerMappings net st"

definition clientMappings :: "Net \<Rightarrow> Versions \<Rightarrow> (error + IVersionManifest) \<times> Versions" where
  "clientMappings net st = view hasClientMappings net st"

section \<open>The patterns, read as functions\<close>

text \<open>
  What the patterns of properties.ts and the pattern of \<^verbatim>\<open>acceptEula\<close> compute, written as
  recursive functions on the text. They serve the proofs: each is shown below to agree
  with the matcher on its pattern.

  \<open>here pre s\<close> is \<^verbatim>\<open>=(.*)$\<close> at the text \<open>s\<close>, with the name \<open>pre\<close> read so far.
  \<open>last_eq pre s\<close> is the rest of \<^verbatim>\<open>(.+)=(.*)$\<close>: the name is made as long as possible, so
  the longer names are tried before the sign at the current position. \<open>kv\<close> is
  \<^verbatim>\<open>(?!#)(.+)=(.*)$\<close>, and \<open>first_kv\<close> is \<^verbatim>\<open>\s*(?!#)(.+)=(.*)$\<close>: as much white space as
  possible is skipped first.
\<close>

fun here :: "string \<Rightarrow> string \<Rightarrow> (string \<times> string) option" where
  "here pre [] = None"
| "here pre (c # cs) = (if c = CHR ''='' \<and> list_all dot cs then Some (pre, cs) else None)"

fun last_eq :: "string \<Rightarrow> string \<Rightarrow> (string \<times> string) option" where
  "last_eq pre [] = None"
| "last_eq pre (c # cs) =
     (case (if dot c then last_eq (pre @ [c]) cs else None) of
        Some r \<Rightarrow> Some r
      | None \<Rightarrow> here pre (c # cs))"

fun kv :: "string \<Rightarrow> (string \<times> string) option" where
  "kv [] = None"
| "kv (c # cs) = (if c \<noteq> CHR ''#'' \<and> dot c then last_eq [c] cs else None)"

fun first_kv :: "string \<Rightarrow> (string \<times> string) option" where
  "first_kv [] = None"
| "first_kv (c # cs) =
     (case (if space c then first_kv cs else None) of
        Some r \<Rightarrow> Some r
      | None \<Rightarrow> kv (c # cs))"

text \<open>\<^verbatim>\<open>^#.+$\<close>\<close>

fun is_comment :: "string \<Rightarrow> bool" where
  "is_comment [] = False"
| "is_comment (c # cs) = (c = CHR ''#'' \<and> cs \<noteq> [] \<and> list_all dot cs)"

text \<open>The part of \<open>PropertyPattern\<close> after the white space: \<^verbatim>\<open>(?!#)(.+)=(.*)$\<close>\<close>

definition KeyValuePattern :: regex where
  "KeyValuePattern =
     Seq (NegLookahead (LitI ''#'')) (Seq (Group 1 (Plus (Chars dot))) (Seq (LitI ''='')
       (Seq (Group 2 (Star (Chars dot))) Dollar)))"

text \<open>The replacement of \<^verbatim>\<open>/\r?\n/gm\<close> by a line feed.\<close>

fun normalize :: "string \<Rightarrow> string" where
  "normalize (a # b # cs) =
     (if a = CR \<and> b = LF then LF # normalize cs else a # normalize (b # cs))"
| "normalize [a] = [a]"
| "normalize [] = []"

text \<open>\<open>starts_ci w s\<close>: the text \<open>s\<close> starts with \<open>w\<close>, letter case aside. \<open>eula_line rep s\<close>
  is the replacement of \<^verbatim>\<open>/eula=(true|false)/gim\<close> by \<open>rep\<close>.\<close>

fun starts_ci :: "string \<Rightarrow> string \<Rightarrow> bool" where
  "starts_ci [] s = True"
| "starts_ci (a # w) [] = False"
| "starts_ci (a # w) (c # cs) = (Canonicalize c = Canonicalize a \<and> starts_ci w cs)"

function eula_line :: "string \<Rightarrow> string \<Rightarrow> string" where
  "eula_line rep [] = []"
| "eula_line rep (c # cs) =
     (if starts_ci ''eula=true'' (c # cs) then rep @ eula_line rep (drop 9 (c # cs))
      else if starts_ci ''eula=false'' (c # cs) then rep @ eula_line rep (drop 10 (c # cs))
      else c # eula_line rep cs)"
  by pat_completeness auto
termination
  by (relation "measure (\<lambda>(rep, s). length s)") auto

section \<open>Notions the properties are stated with\<close>

text \<open>\<open>contains sub s\<close>: the text \<open>sub\<close> occurs in \<open>s\<close>.\<close>

fun contains :: "string \<Rightarrow> string \<Rightarrow> bool" where
  "contains sub [] = (sub = [])"
| "contains sub (c # cs) = (take (length sub) (c # cs) = sub \<or> contains sub cs)"

text \<open>The name of a state as the message of a \<^verbatim>\<open>ServerStateError\<close> spells it.\<close>

fun state_name :: "ServerStatus \<Rightarrow> string" where
  "state_name STOPPED = ''stopped''"
| "state_name CRASHED = ''crashed''"
| "state_name STARTING = ''starting''"
| "state_name RUNNING = ''running''"
| "state_name STOPPING = ''stopping''"

text \<open>A host without network, on which the directory and the jar exist.\<close>

definition offline :: StartEnv where
  "offline =
     \<lparr>Versions_reply = Inl (Error ''fetch failed''), path_exists = True, mkdir_error = None,
      jar_exists = True, request_reply = Inl (Error ''fetch failed''), download_error = None\<rparr>"

text \<open>The variant of a line: a property (key and value), a blank (\<^verbatim>\<open>null\<close>) or a comment.\<close>

datatype kind = KeyValue | Blank | CommentLine

fun variant :: "PropertyData \<Rightarrow> kind" where
  "variant (Property l) = KeyValue"
| "variant Null = Blank"
| "variant (Comment c) = CommentLine"

text \<open>The value a property line has after \<^verbatim>\<open>setProperties(properties)\<close>: that of the first
  given property of its name, or its own when none is given.\<close>

definition new_value :: "IProperty list \<Rightarrow> IProperty \<Rightarrow> string" where
  "new_value properties l =
     (case find (\<lambda>q. name q = name l) properties of
        None \<Rightarrow> value' l | Some q \<Rightarrow> value' q)"

text \<open>\<open>n\<close> accesses to the getter \<^verbatim>\<open>manifest\<close>, one after the other, with the promises
  they return.\<close>

fun accesses :: "nat \<Rightarrow> Versions \<Rightarrow> nat list \<times> Versions" where
  "accesses 0 st = ([], st)"
| "accesses (Suc n) st =
     (case manifest st of (p, st) \<Rightarrow> (case accesses n st of (ps, st) \<Rightarrow> (p # ps, st)))"

text \<open>The class as loaded, beside a versions.json that holds \<open>disk\<close>.\<close>

definition new_Versions :: "(string \<rightharpoonup> Facts) option \<Rightarrow> Versions" where
  "new_Versions disk = \<lparr>manifest' = None, versions' = None, requests = [], versions_json = disk\<rparr>"

text \<open>The facts the views read: the static field once set, the file before.\<close>

definition cache :: "Versions \<Rightarrow> VersionData" where
  "cache st = (case versions' st of None \<Rightarrow> load st | Some d \<Rightarrow> d)"

text \<open>The metadata of a version is delivered: the request for it is answered, with the
  metadata of that version id. What \<^verbatim>\<open>versionData[info.id]\<close> is after the views have
  fetched what was missing: what it is in the facts at hand, or else, when that is
  \<^verbatim>\<open>undefined\<close>, the facts of the metadata delivered.\<close>

definition delivered :: "Net \<Rightarrow> IVersionInfo \<Rightarrow> bool" where
  "delivered net info =
     (case version_reply net (info_url info) of
        Inl err \<Rightarrow> False
      | Inr v \<Rightarrow> version_id v = id' info)"

definition facts_after :: "Net \<Rightarrow> Versions \<Rightarrow> IVersionInfo \<Rightarrow> member" where
  "facts_after net st info =
     (if lookup (cache st) (id' info) = Undefined then
        (case version_reply net (info_url info) of
           Inl err \<Rightarrow> Undefined
         | Inr v \<Rightarrow> Object (facts_of v))
      else lookup (cache st) (id' info))"

text \<open>A manifest of three versions, and a network on which the metadata of a version has
  only a client download; a manifest with a version named as a function every object
  inherits, on a network that delivers no metadata.\<close>

definition entry :: "string \<Rightarrow> VersionType \<Rightarrow> IVersionInfo" where
  "entry i t =
     \<lparr>id' = i, type' = t, info_url = ''https://piston-meta.mojang.com/v1/packages/'' @ i @ ''.json'',
      time = [], releaseTime = [], info_sha1 = [], complianceLevel = 1\<rparr>"

definition has_server :: Facts where
  "has_server = \<lparr>hasClientMappings = True, hasServer = True, hasServerMappings = True\<rparr>"

definition sample_manifest :: IVersionManifest where
  "sample_manifest =
     \<lparr>latest = \<lparr>release' = ''1.20'', snapshot' = ''23w14a''\<rparr>,
      versions = [entry ''23w14a'' snapshot, entry ''1.20'' release, entry ''1.19.4'' release]\<rparr>"

definition sample_net :: Net where
  "sample_net =
     \<lparr>manifest_reply = Inr sample_manifest,
      version_reply = (\<lambda>u. Inr \<lparr>version_id = ''1.20'', client_mappings = None, server = None,
                                 server_mappings = None\<rparr>)\<rparr>"

definition inherited_manifest :: IVersionManifest where
  "inherited_manifest =
     \<lparr>latest = \<lparr>release' = ''toString'', snapshot' = []\<rparr>,
      versions = [entry ''toString'' release, entry ''1.20'' release]\<rparr>"

definition inherited_net :: Net where
  "inherited_net =
     \<lparr>manifest_reply = Inr inherited_manifest,
      version_reply = (\<lambda>u. Inl (Error ''fetch failed''))\<rparr>"

text \<open>A host on which everything is in place: the manifest is delivered, the directory and
  the jar exist.\<close>

definition online :: StartEnv where
  "online =
     \<lparr>Versions_reply = Inr sample_manifest, path_exists = True, mkdir_error = None,
      jar_exists = True, request_reply = Inl (Error ''fetch failed''), download_error = None\<rparr>"

text \<open>The lines of a file, as \<^verbatim>\<open>loadProperties\<close> splits it.\<close>

definition lines_of :: "string \<Rightarrow> string list" where
  "lines_of text = split LF (replace NewlinePattern (\<lambda>m. [LF]) [] text)"

text \<open>A line that is written back as it was read: the empty line, a \<^verbatim>\<open>#\<close> followed by at
  least one character, or a line that starts with neither white space nor \<^verbatim>\<open>#\<close> and has a
  \<^verbatim>\<open>=\<close> after its first character; in each case without a line terminator.\<close>

fun canonical :: "string \<Rightarrow> bool" where
  "canonical [] = True"
| "canonical (c # cs) =
     (list_all dot (c # cs) \<and>
      (if c = CHR ''#'' then cs \<noteq> [] else \<not> space c \<and> CHR ''='' \<in> set cs))"

text \<open>The class as constructed for a path, and three files: the eula.txt the game writes,
  a properties file with the line ends of Windows, and one with an indented line.\<close>

definition new_Properties :: "string \<Rightarrow> Properties" where
  "new_Properties p = \<lparr>data = [], path' = p\<rparr>"

definition eula_txt :: "bool \<Rightarrow> string" where
  "eula_txt b =
     ''#By changing the setting below to TRUE you are indicating your agreement to our EULA (https://aka.ms/MinecraftEULA).''
     @ [LF] @ ''#Mon Mar 20 21:15:37 CET 2023'' @ [LF] @ ''eula='' @ show_bool b @ [LF]"

definition sample_properties :: string where
  "sample_properties =
     ''#Minecraft server properties'' @ [CR, LF] @ [CR, LF] @ ''motd=A Minecraft Server''
     @ [CR, LF] @ ''level-seed=a=b''"

definition indented_properties :: string where
  "indented_properties = ''#Minecraft server properties'' @ [LF, LF] @ ''  motd=hi''"

section \<open>Evaluation\<close>

declare matches.simps(5) [simp del]

declare show_nat.simps [simp del]

lemmas re_defs =
  Lit_def LitI_def Plus_def Opt_def timestamp_def InfoPrefix_def digit_def dot_def space_def
  Canonicalize_def LF_def CR_def

section \<open>The state machine of the server\<close>

lemma new_ServerStateError_name:
  "new_ServerStateError st =
     ServerStateError (''Illegal Action: The server is currently '' @ state_name st @ ''.'')"
  by (cases st) (simp_all add: new_ServerStateError_def toLocaleLowerCase_def)

lemma state_push_log [simp]: "state (push_log t m s) = state s"
  by (simp add: push_log_def Let_def)

lemma process_push_log [simp]: "process (push_log t m s) = process s"
  by (simp add: push_log_def Let_def)

lemma state_error [simp]: "state (error now m b s) = state s"
  by (simp add: error_def)

lemma process_error [simp]: "process (error now m b s) = process s"
  by (simp add: error_def)

lemma start_illegal:
  "\<not> canStart s \<Longrightarrow> start now env s = rethrow now (new_ServerStateError (state s)) s"
  by (simp add: start_def start_try_def)

text \<open>
  C1. \<^verbatim>\<open>start\<close> succeeds only in the states STOPPED and CRASHED; \<^verbatim>\<open>execute\<close> and \<^verbatim>\<open>stop\<close>
  succeed exactly in the state RUNNING. In every other state the call throws a
  \<^verbatim>\<open>ServerStateError\<close> whose message names the current state, and the state (and the
  process) of the server after the failed call is the one before it.
\<close>

theorem illegal_state_is_refused:
  "(\<not> isl (fst (start now env s)) \<longrightarrow> state s = STOPPED \<or> state s = CRASHED) \<and>
   (state s \<noteq> STOPPED \<and> state s \<noteq> CRASHED \<longrightarrow>
      fst (start now env s) =
        Inl (ServerStateError
               (''Illegal Action: The server is currently '' @ state_name (state s) @ ''.'')) \<and>
      state (snd (start now env s)) = state s \<and>
      process (snd (start now env s)) = process s) \<and>
   (\<not> isl (fst (execute now os command s)) \<longleftrightarrow> state s = RUNNING) \<and>
   (state s \<noteq> RUNNING \<longrightarrow>
      fst (execute now os command s) =
        Inl (ServerStateError
               (''Illegal Action: The server is currently '' @ state_name (state s) @ ''.'')) \<and>
      state (snd (execute now os command s)) = state s \<and>
      process (snd (execute now os command s)) = process s) \<and>
   (\<not> isl (fst (stop now os s)) \<longleftrightarrow> state s = RUNNING) \<and>
   (state s \<noteq> RUNNING \<longrightarrow>
      fst (stop now os s) =
        Inl (ServerStateError
               (''Illegal Action: The server is currently '' @ state_name (state s) @ ''.'')) \<and>
      state (snd (stop now os s)) = state s \<and>
      process (snd (stop now os s)) = process s)"
proof -
  have a: "\<not> canStart s \<Longrightarrow>
      fst (start now env s) =
        Inl (ServerStateError
               (''Illegal Action: The server is currently '' @ state_name (state s) @ ''.'')) \<and>
      state (snd (start now env s)) = state s \<and> process (snd (start now env s)) = process s"
    by (simp add: start_illegal rethrow_def new_ServerStateError_name)
  have a': "\<not> canStart s \<Longrightarrow> isl (fst (start now env s))"
    by (simp add: start_illegal rethrow_def)
  have b: "\<not> isl (fst (execute now os command s)) \<longleftrightarrow> state s = RUNNING"
    by (simp add: execute_def canStop_def rethrow_def Let_def)
  have c: "state s \<noteq> RUNNING \<Longrightarrow>
      fst (execute now os command s) =
        Inl (ServerStateError
               (''Illegal Action: The server is currently '' @ state_name (state s) @ ''.'')) \<and>
      state (snd (execute now os command s)) = state s \<and>
      process (snd (execute now os command s)) = process s"
    by (simp add: execute_def canStop_def rethrow_def new_ServerStateError_name)
  have d: "\<not> isl (fst (stop now os s)) \<longleftrightarrow> state s = RUNNING"
    by (simp add: stop_def canStop_def rethrow_def Let_def)
  have e: "state s \<noteq> RUNNING \<Longrightarrow>
      fst (stop now os s) =
        Inl (ServerStateError
               (''Illegal Action: The server is currently '' @ state_name (state s) @ ''.'')) \<and>
      state (snd (stop now os s)) = state s \<and>
      process (snd (stop now os s)) = process s"
    by (simp add: stop_def canStop_def rethrow_def new_ServerStateError_name)
  from a a' b c d e show ?thesis unfolding canStart_def by blast
qed

theorem illegal_state_is_refused_witness:
  "fst (start ''12:00:00'' offline ((new_Server None)\<lparr>state := STARTING\<rparr>)) =
     Inl (ServerStateError ''Illegal Action: The server is currently starting.'') \<and>
   state (snd (start ''12:00:00'' offline ((new_Server None)\<lparr>state := STARTING\<rparr>))) = STARTING \<and>
   fst (execute ''12:00:00'' posix ''list'' (new_Server None)) =
     Inl (ServerStateError ''Illegal Action: The server is currently stopped.'') \<and>
   state (snd (execute ''12:00:00'' posix ''list'' (new_Server None))) = STOPPED \<and>
   fst (stop ''12:00:00'' posix ((new_Server None)\<lparr>state := CRASHED\<rparr>)) =
     Inl (ServerStateError ''Illegal Action: The server is currently crashed.'') \<and>
   \<not> isl (fst (stop ''12:00:00'' posix ((new_Server None)\<lparr>state := RUNNING\<rparr>)))"
  using illegal_state_is_refused
          [of "''12:00:00''" offline "(new_Server None)\<lparr>state := STARTING\<rparr>" posix "''list''"]
        illegal_state_is_refused
          [of "''12:00:00''" offline "new_Server None" posix "''list''"]
        illegal_state_is_refused
          [of "''12:00:00''" offline "(new_Server None)\<lparr>state := CRASHED\<rparr>" posix "''list''"]
        illegal_state_is_refused
          [of "''12:00:00''" offline "(new_Server None)\<lparr>state := RUNNING\<rparr>" posix "''list''"]
  by (simp add: new_Server_def)

text \<open>
  C2. When the child process exits, the state becomes STOPPED if the exit code is 0 and
  CRASHED if it is another code or \<^verbatim>\<open>null\<close> (a signal ended the process); the stored
  process handle is cleared either way. The handler has the same text in server.ts and in
  servers/server.ts.
\<close>

theorem exit_code_decides_state:
  "(code = Some 0 \<longrightarrow> state (on_exit now code signal s) = STOPPED) \<and>
   (code \<noteq> Some 0 \<longrightarrow> state (on_exit now code signal s) = CRASHED) \<and>
   process (on_exit now code signal s) = None"
  by (simp add: on_exit_def Let_def set_state_def log_def error_def split: option.split)

theorem exit_code_decides_state_witness:
  "state (on_exit ''12:00:00'' (Some 0) [] ((new_Server None)\<lparr>state := STOPPING\<rparr>)) = STOPPED \<and>
   state (on_exit ''12:00:00'' (Some 1) [] ((new_Server None)\<lparr>state := RUNNING\<rparr>)) = CRASHED \<and>
   state (on_exit ''12:00:00'' None ''SIGKILL'' ((new_Server None)\<lparr>state := RUNNING\<rparr>)) = CRASHED \<and>
   process (on_exit ''12:00:00'' None ''SIGKILL'' ((new_Server None)\<lparr>state := RUNNING\<rparr>)) = None"
  using exit_code_decides_state
          [of "Some 0" "''12:00:00''" "[]" "(new_Server None)\<lparr>state := STOPPING\<rparr>"]
        exit_code_decides_state
          [of "Some 1" "''12:00:00''" "[]" "(new_Server None)\<lparr>state := RUNNING\<rparr>"]
        exit_code_decides_state
          [of None "''12:00:00''" "''SIGKILL''" "(new_Server None)\<lparr>state := RUNNING\<rparr>"]
  by simp

section \<open>The classification of the output\<close>

lemma contains_split: "contains sub s \<Longrightarrow> \<exists>p q. s = p @ sub @ q"
proof (induction s)
  case Nil
  then show ?case by simp
next
  case (Cons c cs)
  show ?case
  proof (cases "take (length sub) (c # cs) = sub")
    case True
    then have "c # cs = [] @ sub @ drop (length sub) (c # cs)"
      by (metis append_Nil append_take_drop_id)
    then show ?thesis by blast
  next
    case False
    with Cons.prems have "contains sub cs" by simp
    then obtain p q where "cs = p @ sub @ q" using Cons.IH by blast
    then have "c # cs = (c # p) @ sub @ q" by simp
    then show ?thesis by blast
  qed
qed

text \<open>A pattern that matches at some position of a text is found by the search.\<close>

lemma search_found: "matches r (prev, s, []) \<noteq> [] \<Longrightarrow> search r prev s \<noteq> None"
  by (cases s) (auto split: list.splits)

lemma search_append: "search r (rev p @ prev) s \<noteq> None \<Longrightarrow> search r prev (p @ s) \<noteq> None"
proof (induction p arbitrary: prev)
  case Nil
  then show ?case by simp
next
  case (Cons c p)
  from Cons.prems have "search r (rev p @ c # prev) s \<noteq> None" by simp
  then have "search r (c # prev) (p @ s) \<noteq> None" by (rule Cons.IH)
  then show ?case by (auto split: list.splits)
qed

lemma test_WarnPattern: "contains ''/WARN]'' msg \<Longrightarrow> test WarnPattern msg"
proof -
  assume "contains ''/WARN]'' msg"
  then obtain p q where msg: "msg = p @ ''/WARN]'' @ q" using contains_split by blast
  have "matches WarnPattern (rev p @ [], ''/WARN]'' @ q, []) \<noteq> []"
    by (simp add: WarnPattern_def re_defs)
  then have "search WarnPattern (rev p @ []) (''/WARN]'' @ q) \<noteq> None" by (rule search_found)
  then have "search WarnPattern [] (p @ ''/WARN]'' @ q) \<noteq> None" by (rule search_append)
  then show ?thesis by (simp add: test_def exec_def msg)
qed

lemma test_ErrorPattern: "contains ''/ERROR]'' msg \<Longrightarrow> test ErrorPattern msg"
proof -
  assume "contains ''/ERROR]'' msg"
  then obtain p q where msg: "msg = p @ ''/ERROR]'' @ q" using contains_split by blast
  have "matches ErrorPattern (rev p @ [], ''/ERROR]'' @ q, []) \<noteq> []"
    by (simp add: ErrorPattern_def re_defs)
  then have "search ErrorPattern (rev p @ []) (''/ERROR]'' @ q) \<noteq> None" by (rule search_found)
  then have "search ErrorPattern [] (p @ ''/ERROR]'' @ q) \<noteq> None" by (rule search_append)
  then show ?thesis by (simp add: test_def exec_def msg)
qed

lemma done_line_Warn:
  "\<not> test WarnPattern ''[12:34:56] [Server thread/INFO]: Done (3.2s)! For help, type...''"
  by (simp add: test_def exec_def WarnPattern_def re_defs)

lemma done_line_Error:
  "\<not> test ErrorPattern ''[12:34:56] [Server thread/INFO]: Done (3.2s)! For help, type...''"
  by (simp add: test_def exec_def ErrorPattern_def re_defs)

lemma done_line_Done:
  "test DonePattern ''[12:34:56] [Server thread/INFO]: Done (3.2s)! For help, type...''"
  by (simp add: test_def exec_def DonePattern_def re_defs matches.simps(5))

lemma done_line_messages:
  "messages ''[12:34:56] [Server thread/INFO]: Done (3.2s)! For help, type...'' =
     [''[12:34:56] [Server thread/INFO]: Done (3.2s)! For help, type...'']"
  by (simp add: messages_def PrefixPattern_def re_defs matches.simps(5))

text \<open>
  C3. The chunk \<^verbatim>\<open>[12:34:56] [Server thread/INFO]: Done (3.2s)! For help, type...\<close> is one
  message. It matches neither the warn nor the error pattern and it matches the done
  pattern: the handler of \<^verbatim>\<open>stdout\<close> logs it with severity INFO (followed by the server's own
  INFO entry \<^verbatim>\<open>Server is running...\<close>) and sets the state to RUNNING.
\<close>

theorem done_line_is_info_and_running:
  "\<not> test WarnPattern ''[12:34:56] [Server thread/INFO]: Done (3.2s)! For help, type...'' \<and>
   \<not> test ErrorPattern ''[12:34:56] [Server thread/INFO]: Done (3.2s)! For help, type...'' \<and>
   test DonePattern ''[12:34:56] [Server thread/INFO]: Done (3.2s)! For help, type...'' \<and>
   logs (on_stdout_data now ''[12:34:56] [Server thread/INFO]: Done (3.2s)! For help, type...'' s) =
     logs s @
     [\<lparr>type = INFO, content = ''[12:34:56] [Server thread/INFO]: Done (3.2s)! For help, type...''\<rparr>,
      \<lparr>type = INFO, content = ''['' @ now @ ''] [MCServerJS] Server is running...''\<rparr>] \<and>
   state (on_stdout_data now ''[12:34:56] [Server thread/INFO]: Done (3.2s)! For help, type...'' s) =
     RUNNING"
  by (simp add: done_line_Warn done_line_Error done_line_Done done_line_messages
        on_stdout_data_def on_message_def log_def push_log_def set_state_def stamp_def Let_def)

theorem done_line_is_info_and_running_witness:
  "logs (on_stdout_data ''12:35:00''
           ''[12:34:56] [Server thread/INFO]: Done (3.2s)! For help, type...''
           ((new_Server None)\<lparr>state := STARTING\<rparr>)) =
     [\<lparr>type = INFO, content = ''[12:34:56] [Server thread/INFO]: Done (3.2s)! For help, type...''\<rparr>,
      \<lparr>type = INFO, content = ''[12:35:00] [MCServerJS] Server is running...''\<rparr>] \<and>
   state (on_stdout_data ''12:35:00''
            ''[12:34:56] [Server thread/INFO]: Done (3.2s)! For help, type...''
            ((new_Server None)\<lparr>state := STARTING\<rparr>)) = RUNNING"
  using done_line_is_info_and_running [of "''12:35:00''" "(new_Server None)\<lparr>state := STARTING\<rparr>"]
  by (simp add: new_Server_def)

lemma logs_on_message_Warn:
  "test WarnPattern msg \<Longrightarrow>
     \<exists>more. logs (on_message now msg s) = logs s @ \<lparr>type = WARN, content = msg\<rparr> # more \<and>
            ERROR \<notin> set (map type more)"
  by (simp add: on_message_def warn_def log_def push_log_def set_state_def stamp_def Let_def)

text \<open>
  C10. A message that contains both \<^verbatim>\<open>/WARN]\<close> and \<^verbatim>\<open>/ERROR]\<close> matches both patterns; the
  warn pattern is tested first, so the entry logged for the message has severity WARN, and
  no entry the handler logs for it has severity ERROR.
\<close>

theorem warn_takes_precedence:
  assumes "contains ''/WARN]'' msg" and "contains ''/ERROR]'' msg"
  shows "test WarnPattern msg \<and> test ErrorPattern msg \<and>
         take 1 (drop (length (logs s)) (logs (on_message now msg s))) =
           [\<lparr>type = WARN, content = msg\<rparr>] \<and>
         ERROR \<notin> set (map type (drop (length (logs s)) (logs (on_message now msg s))))"
proof -
  from assms have w: "test WarnPattern msg" and e: "test ErrorPattern msg"
    by (simp_all add: test_WarnPattern test_ErrorPattern)
  from w obtain more where
    "logs (on_message now msg s) = logs s @ \<lparr>type = WARN, content = msg\<rparr> # more"
    "ERROR \<notin> set (map type more)"
    using logs_on_message_Warn by blast
  with w e show ?thesis by simp
qed

theorem warn_takes_precedence_witness:
  "contains ''/WARN]'' ''[12:34:56] [Worker-1/WARN]: caused by [main/ERROR]: disk'' \<and>
   contains ''/ERROR]'' ''[12:34:56] [Worker-1/WARN]: caused by [main/ERROR]: disk'' \<and>
   take 1 (drop (length (logs (new_Server None)))
                (logs (on_message ''12:35:00''
                         ''[12:34:56] [Worker-1/WARN]: caused by [main/ERROR]: disk''
                         (new_Server None)))) =
     [\<lparr>type = WARN, content = ''[12:34:56] [Worker-1/WARN]: caused by [main/ERROR]: disk''\<rparr>]"
proof -
  have w: "contains ''/WARN]'' ''[12:34:56] [Worker-1/WARN]: caused by [main/ERROR]: disk''"
    by simp
  have e: "contains ''/ERROR]'' ''[12:34:56] [Worker-1/WARN]: caused by [main/ERROR]: disk''"
    by simp
  from warn_takes_precedence [OF w e, of "new_Server None" "''12:35:00''"] w e
  show ?thesis by simp
qed

section \<open>setProperties\<close>

lemma find_name: "find (\<lambda>q. name q = n) ps = Some r \<Longrightarrow> name r = n"
  by (induction ps) (auto split: if_splits)

lemma update_line_Property:
  "update_line ps (Property l) = Property \<lparr>name = name l, value' = new_value ps l\<rparr>"
proof (cases "find (\<lambda>q. name q = name l) ps")
  case None
  then show ?thesis by (simp add: update_line_def new_value_def)
next
  case (Some r)
  then have "name r = name l" by (rule find_name)
  with Some show ?thesis by (simp add: update_line_def new_value_def)
qed

lemma update_line_Null [simp]: "update_line ps Null = Null"
  by (simp add: update_line_def)

lemma update_line_Comment [simp]: "update_line ps (Comment c) = Comment c"
  by (simp add: update_line_def)

lemma variant_update_line [simp]: "variant (update_line ps line) = variant line"
  by (cases line) (simp_all add: update_line_Property)

lemma properties_of_update:
  "map name (properties_of (map (update_line ps) ls)) = map name (properties_of ls)"
  by (induction ls rule: properties_of.induct) (simp_all add: update_line_Property)

lemma data_setProperties:
  "data (snd (snd (setProperties os ps fs p))) = map (update_line ps) (data p)"
  by (simp add: setProperties_def Let_def)

text \<open>
  C7. \<^verbatim>\<open>setProperties(ps)\<close> keeps the length of the line sequence and the variant of every
  line. A blank and a comment stay as they are; a property line keeps its name and takes
  the value of the first given property of that name, or keeps its own. No line is added
  for a given property whose name no line has: the names of the properties returned are
  those of the lines before.
\<close>

theorem setProperties_frame:
  "length (data (snd (snd (setProperties os ps fs p)))) = length (data p) \<and>
   map variant (data (snd (snd (setProperties os ps fs p)))) = map variant (data p) \<and>
   (\<forall>i < length (data p).
      (data p ! i = Null \<longrightarrow> data (snd (snd (setProperties os ps fs p))) ! i = Null) \<and>
      (\<forall>c. data p ! i = Comment c \<longrightarrow>
           data (snd (snd (setProperties os ps fs p))) ! i = Comment c) \<and>
      (\<forall>l. data p ! i = Property l \<longrightarrow>
           data (snd (snd (setProperties os ps fs p))) ! i =
             Property \<lparr>name = name l, value' = new_value ps l\<rparr>)) \<and>
   map name (fst (setProperties os ps fs p)) = map name (properties_of (data p))"
proof -
  have "\<forall>i < length (data p).
      (data p ! i = Null \<longrightarrow> map (update_line ps) (data p) ! i = Null) \<and>
      (\<forall>c. data p ! i = Comment c \<longrightarrow> map (update_line ps) (data p) ! i = Comment c) \<and>
      (\<forall>l. data p ! i = Property l \<longrightarrow>
           map (update_line ps) (data p) ! i =
             Property \<lparr>name = name l, value' = new_value ps l\<rparr>)"
    by (simp add: update_line_Property)
  moreover have "map name (fst (setProperties os ps fs p)) = map name (properties_of (data p))"
    by (simp add: setProperties_def Let_def properties_of_update)
  ultimately show ?thesis by (simp add: data_setProperties)
qed

theorem setProperties_frame_witness:
  "data (snd (snd (setProperties posix
       [\<lparr>name = ''motd'', value' = ''Hello''\<rparr>, \<lparr>name = ''pvp'', value' = ''false''\<rparr>,
        \<lparr>name = ''motd'', value' = ''Again''\<rparr>]
       Map.empty
       \<lparr>data = [Comment ''#Minecraft server properties'', Null,
                Property \<lparr>name = ''motd'', value' = ''A Minecraft Server''\<rparr>,
                Property \<lparr>name = ''difficulty'', value' = ''easy''\<rparr>],
        path' = ''./server/server.properties''\<rparr>))) =
     [Comment ''#Minecraft server properties'', Null,
      Property \<lparr>name = ''motd'', value' = ''Hello''\<rparr>,
      Property \<lparr>name = ''difficulty'', value' = ''easy''\<rparr>] \<and>
   map name (fst (setProperties posix
       [\<lparr>name = ''motd'', value' = ''Hello''\<rparr>, \<lparr>name = ''pvp'', value' = ''false''\<rparr>,
        \<lparr>name = ''motd'', value' = ''Again''\<rparr>]
       Map.empty
       \<lparr>data = [Comment ''#Minecraft server properties'', Null,
                Property \<lparr>name = ''motd'', value' = ''A Minecraft Server''\<rparr>,
                Property \<lparr>name = ''difficulty'', value' = ''easy''\<rparr>],
        path' = ''./server/server.properties''\<rparr>)) = [''motd'', ''difficulty'']"
  using setProperties_frame
     [of posix
       "[\<lparr>name = ''motd'', value' = ''Hello''\<rparr>, \<lparr>name = ''pvp'', value' = ''false''\<rparr>,
         \<lparr>name = ''motd'', value' = ''Again''\<rparr>]"
       Map.empty
       "\<lparr>data = [Comment ''#Minecraft server properties'', Null,
                 Property \<lparr>name = ''motd'', value' = ''A Minecraft Server''\<rparr>,
                 Property \<lparr>name = ''difficulty'', value' = ''easy''\<rparr>],
         path' = ''./server/server.properties''\<rparr>"]
  by (simp add: setProperties_def update_line_def Let_def)

section \<open>The manifest is fetched once\<close>

lemma manifest_Some: "manifest' st = Some p \<Longrightarrow> manifest st = (p, st)"
  by (simp add: manifest_def)

lemma manifest_None:
  "manifest' st = None \<Longrightarrow>
     manifest st =
       (length (requests st),
        st\<lparr>requests := requests st @ [manifest_url], manifest' := Some (length (requests st))\<rparr>)"
  by (simp add: manifest_def request_def)

lemma accesses_Some: "manifest' st = Some p \<Longrightarrow> accesses n st = (replicate n p, st)"
  by (induction n) (simp_all add: manifest_Some)

lemma accesses_None:
  "manifest' st = None \<Longrightarrow>
     accesses (Suc n) st =
       (replicate (Suc n) (length (requests st)),
        st\<lparr>requests := requests st @ [manifest_url], manifest' := Some (length (requests st))\<rparr>)"
  by (simp add: manifest_None accesses_Some)

text \<open>
  C8. Over any number of accesses to the getter \<^verbatim>\<open>manifest\<close>, from any state of the class,
  at most one request is issued, and every access returns the promise the first one
  returns. When nothing is memoised yet, the one request is the fetch of the manifest,
  issued by the first access; when a promise is memoised, no request is issued at all. An
  access reads and writes the field in one step, so accesses made before the promise
  settles are accesses of such a sequence.
\<close>

theorem manifest_fetched_at_most_once:
  "length (requests (snd (accesses n st))) \<le> Suc (length (requests st)) \<and>
   set (fst (accesses n st)) \<subseteq> {fst (manifest st)} \<and>
   (manifest' st = None \<and> 0 < n \<longrightarrow>
      requests (snd (accesses n st)) = requests st @ [manifest_url]) \<and>
   (manifest' st \<noteq> None \<longrightarrow> requests (snd (accesses n st)) = requests st)"
proof (cases "manifest' st")
  case None
  show ?thesis
  proof (cases n)
    case 0
    then show ?thesis by simp
  next
    case (Suc k)
    with None show ?thesis
      by (auto simp add: accesses_None manifest_None simp del: accesses.simps)
  qed
next
  case (Some p)
  then show ?thesis by (auto simp add: accesses_Some manifest_Some)
qed

theorem manifest_fetched_at_most_once_witness:
  "requests (snd (accesses 3 (new_Versions None))) = [manifest_url] \<and>
   fst (accesses 3 (new_Versions None)) = [0, 0, 0]"
  using manifest_fetched_at_most_once [of 3 "new_Versions None"]
  by (simp add: new_Versions_def numeral_3_eq_3 manifest_def request_def)

section \<open>The servers view\<close>

lemma filter_facts_Inr:
  "filter_facts has vd infos = Inr vs \<Longrightarrow>
     vs = filter (\<lambda>info. truthy has (lookup vd (id' info))) infos \<and>
     (\<forall>info \<in> set infos. lookup vd (id' info) \<noteq> Undefined)"
  by (induction infos arbitrary: vs) (auto split: if_splits sum.splits)

lemma filter_facts_total:
  "\<forall>info \<in> set infos. lookup vd (id' info) \<noteq> Undefined \<Longrightarrow>
     filter_facts has vd infos = Inr (filter (\<lambda>info. truthy has (lookup vd (id' info))) infos)"
  by (induction infos) auto

lemma getVersionData_cache:
  "getVersionData net m st = (Inr vd, st') \<Longrightarrow> versions' st' = Some vd"
  by (auto simp: getVersionData_def Let_def save_def split: if_splits prod.splits sum.splits)

lemma cache_manifest [simp]: "cache (snd (manifest st)) = cache st"
  by (simp add: cache_def manifest_def request_def load_def split: option.splits)

lemma getVersionData_cached:
  assumes "\<forall>info \<in> set (versions m). lookup (cache st) (id' info) \<noteq> Undefined"
  shows "fst (getVersionData net m st) = Inr (cache st)"
proof -
  have "filter (\<lambda>info. lookup (cache st) (id' info) = Undefined) (versions m) = []"
    using assms by (simp add: filter_empty_conv)
  then show ?thesis
    by (cases "versions' st") (simp_all add: getVersionData_def cache_def Let_def)
qed

lemma view_Inr:
  assumes "view has net st = (Inr v, st')"
  shows "\<exists>m vd. manifest_reply net = Inr m \<and> versions' st' = Some vd \<and>
           (\<forall>info \<in> set (versions m). lookup vd (id' info) \<noteq> Undefined) \<and>
           versions v = filter (\<lambda>info. truthy has (lookup vd (id' info))) (versions m) \<and>
           latest v = \<lparr>release' = latest_of release (versions v),
                       snapshot' = latest_of snapshot (versions v)\<rparr>"
proof -
  obtain p st1 where m1: "manifest st = (p, st1)" by (cases "manifest st")
  from assms m1 obtain m where m: "manifest_reply net = Inr m"
    by (cases "manifest_reply net") (auto simp: view_def)
  from assms m1 m obtain vd where g: "getVersionData net m st1 = (Inr vd, st')"
    by (auto simp: view_def split: prod.splits sum.splits)
  from assms m1 m g obtain vs where f: "filter_facts has vd (versions m) = Inr vs"
    and v: "v = \<lparr>latest = \<lparr>release' = latest_of release vs, snapshot' = latest_of snapshot vs\<rparr>,
                 versions = vs\<rparr>"
    by (auto simp: view_def split: sum.splits)
  from g have "versions' st' = Some vd" by (rule getVersionData_cache)
  with m f v filter_facts_Inr [OF f] show ?thesis by auto
qed

lemma view_cached:
  assumes "manifest_reply net = Inr m"
    and "\<forall>info \<in> set (versions m). lookup (cache st) (id' info) \<noteq> Undefined"
  shows "fst (view has net st) =
           Inr \<lparr>latest =
                  \<lparr>release' = latest_of release
                      (filter (\<lambda>info. truthy has (lookup (cache st) (id' info))) (versions m)),
                   snapshot' = latest_of snapshot
                      (filter (\<lambda>info. truthy has (lookup (cache st) (id' info))) (versions m))\<rparr>,
                versions = filter (\<lambda>info. truthy has (lookup (cache st) (id' info))) (versions m)\<rparr>"
proof -
  obtain p st1 where m1: "manifest st = (p, st1)" by (cases "manifest st")
  then have c: "cache st1 = cache st" using cache_manifest [of st] by simp
  obtain r st2 where g: "getVersionData net m st1 = (r, st2)"
    by (cases "getVersionData net m st1")
  with getVersionData_cached [of m st1 net] assms(2) c have r: "r = Inr (cache st)" by simp
  from assms(2) have "filter_facts has (cache st) (versions m) =
      Inr (filter (\<lambda>info. truthy has (lookup (cache st) (id' info))) (versions m))"
    by (rule filter_facts_total)
  with m1 g r assms(1) show ?thesis by (simp add: view_def)
qed

lemma lookup_own: "own vd k = Some facts \<Longrightarrow> lookup vd k = Object facts"
  by (simp add: lookup_def)

lemma servers_Inr:
  assumes "servers net st = (Inr v, st')"
  shows "\<exists>m vd. manifest_reply net = Inr m \<and> versions' st' = Some vd \<and>
           versions v = filter (\<lambda>info. truthy hasServer (lookup vd (id' info))) (versions m) \<and>
           (\<forall>info \<in> set (versions m).
              lookup vd (id' info) \<noteq> Undefined \<and>
              (\<forall>facts. own vd (id' info) = Some facts \<longrightarrow>
                 (hasServer facts \<longleftrightarrow> id' info \<in> set (map id' (versions v))))) \<and>
           release' (latest v) =
             (case find (\<lambda>info. type' info = release) (versions v) of
                None \<Rightarrow> [] | Some info \<Rightarrow> id' info)"
proof -
  from assms obtain m vd where m: "manifest_reply net = Inr m" and vd: "versions' st' = Some vd"
    and all: "\<forall>info \<in> set (versions m). lookup vd (id' info) \<noteq> Undefined"
    and vs: "versions v = filter (\<lambda>info. truthy hasServer (lookup vd (id' info))) (versions m)"
    and l: "latest v = \<lparr>release' = latest_of release (versions v),
                       snapshot' = latest_of snapshot (versions v)\<rparr>"
    unfolding servers_def using view_Inr by blast
  have "hasServer facts \<longleftrightarrow> id' info \<in> set (map id' (versions v))"
    if i: "info \<in> set (versions m)" and o: "own vd (id' info) = Some facts" for info facts
  proof
    from o have f: "lookup vd (id' info) = Object facts" by (rule lookup_own)
    {
      assume "hasServer facts"
      with i f have "info \<in> set (versions v)" by (simp add: vs)
      then show "id' info \<in> set (map id' (versions v))" by simp
    next
      assume "id' info \<in> set (map id' (versions v))"
      then obtain j where "j \<in> set (versions v)" and "id' j = id' info" by auto
      then show "hasServer facts" using f by (simp add: vs)
    }
  qed
  with all have "\<forall>info \<in> set (versions m).
      lookup vd (id' info) \<noteq> Undefined \<and>
      (\<forall>facts. own vd (id' info) = Some facts \<longrightarrow>
         (hasServer facts \<longleftrightarrow> id' info \<in> set (map id' (versions v))))"
    by blast
  with m vd vs l show ?thesis by (simp add: latest_of_def)
qed

lemma request_all_delivered:
  "list_all (delivered net) infos \<Longrightarrow>
     fst (request_all net infos st) = Inr (map (\<lambda>info. projr (version_reply net (info_url info))) infos)"
proof (induction infos arbitrary: st)
  case Nil
  show ?case by simp
next
  case (Cons info infos)
  from Cons.prems obtain v where v: "version_reply net (info_url info) = Inr v"
    by (auto simp: delivered_def split: sum.splits)
  from Cons.prems have "list_all (delivered net) infos" by simp
  from Cons.IH [OF this, of "snd (request (info_url info) st)"] v show ?case
    by (simp add: case_prod_unfold split: sum.splits)
qed

lemma foldl_facts_other:
  "k \<notin> set (map version_id vs) \<Longrightarrow>
     foldl (\<lambda>d v. d(version_id v \<mapsto> facts_of v)) d vs k = d k"
  by (induction vs arbitrary: d) auto

lemma foldl_facts_distinct:
  "distinct (map version_id vs) \<Longrightarrow> v \<in> set vs \<Longrightarrow>
     foldl (\<lambda>d v. d(version_id v \<mapsto> facts_of v)) d vs (version_id v) = Some (facts_of v)"
proof (induction vs arbitrary: d)
  case Nil
  then show ?case by simp
next
  case (Cons w vs)
  show ?case
  proof (cases "v = w")
    case True
    with Cons.prems have "version_id w \<notin> set (map version_id vs)" by auto
    from foldl_facts_other [OF this, of "d(version_id w \<mapsto> facts_of w)"] True
    show ?thesis by (simp del: fun_upd_apply add: fun_upd_same)
  next
    case False
    with Cons show ?thesis by auto
  qed
qed

lemma delivered_ids:
  "list_all (delivered net) infos \<Longrightarrow>
     map version_id (map (\<lambda>info. projr (version_reply net (info_url info))) infos) = map id' infos"
  by (induction infos) (auto simp: delivered_def split: sum.splits)

text \<open>A key read as \<^verbatim>\<open>undefined\<close> is not \<^verbatim>\<open>__proto__\<close>, so the assignments after a fetch of
  metadata delivered make properties of the object's own.\<close>

lemma lookup_Undefined: "lookup d k = Undefined \<Longrightarrow> k \<noteq> ''__proto__'' \<and> own d k = None"
  by (auto simp: lookup_def split: option.splits if_splits)

lemma lookup_defined:
  assumes "lookup d k \<noteq> Undefined" and "k \<notin> set Object_prototype"
    and "k \<notin> {''hasClientMappings'', ''hasServer'', ''hasServerMappings''}"
  shows "\<exists>facts. own d k = Some facts"
  using assms
  by (auto simp: lookup_def field_of_def Object_prototype_def split: option.splits if_splits)

lemma foldl_assign:
  "''__proto__'' \<notin> set (map version_id vs) \<Longrightarrow>
     foldl (\<lambda>d v. assign d (version_id v) (facts_of v)) d vs =
       d\<lparr>own := foldl (\<lambda>d v. d(version_id v \<mapsto> facts_of v)) (own d) vs\<rparr>"
  by (induction vs arbitrary: d) (auto simp: assign_def)

lemma lookup_own_eq:
  "o' k = own d k \<Longrightarrow> lookup (d\<lparr>own := o'\<rparr>) k = lookup d k"
  by (simp add: lookup_def split: option.splits)

lemma getVersionData_delivered:
  assumes dl: "\<forall>info \<in> set (versions m).
                 lookup (cache st) (id' info) = Undefined \<longrightarrow> delivered net info"
    and dis: "distinct (map id' (versions m))"
  shows "\<exists>vd. fst (getVersionData net m st) = Inr vd \<and>
           (\<forall>info \<in> set (versions m). lookup vd (id' info) = facts_after net st info \<and>
                                       lookup vd (id' info) \<noteq> Undefined)"
proof -
  let ?fi = "filter (\<lambda>info. lookup (cache st) (id' info) = Undefined) (versions m)"
  let ?vs = "map (\<lambda>info. projr (version_reply net (info_url info))) ?fi"
  let ?own = "foldl (\<lambda>d v. d(version_id v \<mapsto> facts_of v)) (own (cache st)) ?vs"
  let ?vd = "foldl (\<lambda>d v. assign d (version_id v) (facts_of v)) (cache st) ?vs"
  have fi: "list_all (delivered net) ?fi" using dl by (simp add: list_all_iff)
  then have ids: "map version_id ?vs = map id' ?fi" by (rule delivered_ids)
  have "''__proto__'' \<notin> set (map id' ?fi)"
    using lookup_Undefined [of "cache st"] by fastforce
  with ids have "''__proto__'' \<notin> set (map version_id ?vs)" by simp
  then have vd: "?vd = (cache st)\<lparr>own := ?own\<rparr>" by (rule foldl_assign)
  have g: "fst (getVersionData net m st) = Inr ?vd"
  proof (cases "?fi = []")
    case True
    then show ?thesis
      by (cases "versions' st") (simp_all add: getVersionData_def cache_def Let_def)
  next
    case False
    have "\<And>st'. fst (request_all net ?fi st') = Inr ?vs" using fi by (rule request_all_delivered)
    with False show ?thesis
      by (cases "versions' st")
         (simp_all add: getVersionData_def cache_def Let_def case_prod_unfold
            split: sum.splits)
  qed
  have "lookup ?vd (id' info) = facts_after net st info \<and> lookup ?vd (id' info) \<noteq> Undefined"
    if i: "info \<in> set (versions m)" for info
  proof (cases "lookup (cache st) (id' info) = Undefined")
    case False
    then have "id' info \<notin> set (map id' ?fi)" by auto
    with ids have "id' info \<notin> set (map version_id ?vs)" by simp
    then have "?own (id' info) = own (cache st) (id' info)" by (rule foldl_facts_other)
    then have "lookup ((cache st)\<lparr>own := ?own\<rparr>) (id' info) = lookup (cache st) (id' info)"
      by (rule lookup_own_eq)
    with False vd show ?thesis by (simp add: facts_after_def)
  next
    case True
    with i have m: "info \<in> set ?fi" by simp
    from dl i True have "delivered net info" by simp
    then obtain v where v: "version_reply net (info_url info) = Inr v"
      and vi: "version_id v = id' info"
      by (cases "version_reply net (info_url info)") (simp_all add: delivered_def)
    from m v have "v \<in> set ?vs" by force
    moreover from dis have "distinct (map id' ?fi)" by (rule distinct_map_filter)
    then have "distinct (map version_id ?vs)" by (simp only: ids)
    ultimately have "?own (version_id v) = Some (facts_of v)" by (intro foldl_facts_distinct)
    then have "lookup ((cache st)\<lparr>own := ?own\<rparr>) (version_id v) = Object (facts_of v)"
      by (simp add: lookup_def)
    with True v vi vd show ?thesis by (simp add: facts_after_def)
  qed
  with g show ?thesis by blast
qed

lemma view_delivered:
  assumes "manifest_reply net = Inr m"
    and "\<forall>info \<in> set (versions m).
           lookup (cache st) (id' info) = Undefined \<longrightarrow> delivered net info"
    and "distinct (map id' (versions m))"
  shows "fst (view has net st) =
           Inr \<lparr>latest =
                  \<lparr>release' = latest_of release
                      (filter (\<lambda>info. truthy has (facts_after net st info)) (versions m)),
                   snapshot' = latest_of snapshot
                      (filter (\<lambda>info. truthy has (facts_after net st info)) (versions m))\<rparr>,
                versions = filter (\<lambda>info. truthy has (facts_after net st info)) (versions m)\<rparr>"
proof -
  obtain p st1 where m1: "manifest st = (p, st1)" by (cases "manifest st")
  then have c: "cache st1 = cache st" using cache_manifest [of st] by simp
  then have fa: "facts_after net st1 = facts_after net st" by (simp add: facts_after_def fun_eq_iff)
  obtain r st2 where g: "getVersionData net m st1 = (r, st2)"
    by (cases "getVersionData net m st1")
  with getVersionData_delivered [of m st1 net] assms(2,3) c fa obtain vd where r: "r = Inr vd"
    and vd: "\<forall>info \<in> set (versions m). lookup vd (id' info) = facts_after net st info \<and>
                                       lookup vd (id' info) \<noteq> Undefined"
    by auto
  from vd have "filter_facts has vd (versions m) =
      Inr (filter (\<lambda>info. truthy has (lookup vd (id' info))) (versions m))"
    by (intro filter_facts_total) blast
  also have "filter (\<lambda>info. truthy has (lookup vd (id' info))) (versions m) =
      filter (\<lambda>info. truthy has (facts_after net st info)) (versions m)"
    using vd by (intro filter_cong) simp_all
  finally show ?thesis using m1 g r assms(1) by (simp add: view_def)
qed

text \<open>
  C9. Whenever \<^verbatim>\<open>servers\<close> returns a view, no version id of the manifest reads as
  \<^verbatim>\<open>undefined\<close> in the facts (as the class holds them after the call); the view lists, in
  the order of the manifest, the versions for which \<^verbatim>\<open>versionData[info.id].hasServer\<close> is
  truthy, so a version id with a record of facts is in the view exactly when its record
  has \<^verbatim>\<open>hasServer = true\<close>; and \<^verbatim>\<open>latest.release\<close> is the id of the first version of the view
  whose type is \<^verbatim>\<open>release\<close>, or the empty string. The view is returned whenever the
  manifest is delivered and none of its version ids reads as \<^verbatim>\<open>undefined\<close> in the facts at
  hand; and also when the version ids of the manifest are distinct and the metadata of
  each version that reads as \<^verbatim>\<open>undefined\<close> is delivered, the facts then being those at
  hand and, for the others, those of the metadata.
\<close>

theorem servers_view:
  "(servers net st = (Inr v, st') \<longrightarrow>
      (\<exists>m vd. manifest_reply net = Inr m \<and> versions' st' = Some vd \<and>
         versions v = filter (\<lambda>info. truthy hasServer (lookup vd (id' info))) (versions m) \<and>
         (\<forall>info \<in> set (versions m).
            lookup vd (id' info) \<noteq> Undefined \<and>
            (\<forall>facts. own vd (id' info) = Some facts \<longrightarrow>
               (hasServer facts \<longleftrightarrow> id' info \<in> set (map id' (versions v))))) \<and>
         release' (latest v) =
           (case find (\<lambda>info. type' info = release) (versions v) of
              None \<Rightarrow> [] | Some info \<Rightarrow> id' info))) \<and>
   (manifest_reply net = Inr m0 \<and>
    (\<forall>info \<in> set (versions m0). lookup (cache st) (id' info) \<noteq> Undefined) \<longrightarrow>
      fst (servers net st) =
        Inr \<lparr>latest =
               \<lparr>release' = latest_of release
                   (filter (\<lambda>info. truthy hasServer (lookup (cache st) (id' info))) (versions m0)),
                snapshot' = latest_of snapshot
                   (filter (\<lambda>info. truthy hasServer (lookup (cache st) (id' info))) (versions m0))\<rparr>,
             versions =
               filter (\<lambda>info. truthy hasServer (lookup (cache st) (id' info))) (versions m0)\<rparr>) \<and>
   (manifest_reply net = Inr m1 \<and> distinct (map id' (versions m1)) \<and>
    (\<forall>info \<in> set (versions m1).
       lookup (cache st) (id' info) = Undefined \<longrightarrow> delivered net info) \<longrightarrow>
      fst (servers net st) =
        Inr \<lparr>latest =
               \<lparr>release' = latest_of release
                   (filter (\<lambda>info. truthy hasServer (facts_after net st info)) (versions m1)),
                snapshot' = latest_of snapshot
                   (filter (\<lambda>info. truthy hasServer (facts_after net st info)) (versions m1))\<rparr>,
             versions = filter (\<lambda>info. truthy hasServer (facts_after net st info)) (versions m1)\<rparr>)"
  using servers_Inr [of net st v st'] view_cached [of net m0 st hasServer]
    view_delivered [of net m1 st hasServer]
  unfolding servers_def by blast

theorem servers_view_witness:
  "servers sample_net
     (new_Versions (Some [''23w14a'' \<mapsto> has_server, ''1.19.4'' \<mapsto> has_server])) =
     (Inr \<lparr>latest = \<lparr>release' = ''1.19.4'', snapshot' = ''23w14a''\<rparr>,
           versions = [entry ''23w14a'' snapshot, entry ''1.19.4'' release]\<rparr>,
      snd (servers sample_net
             (new_Versions (Some [''23w14a'' \<mapsto> has_server, ''1.19.4'' \<mapsto> has_server])))) \<and>
   (\<exists>vd. versions'
            (snd (servers sample_net
                    (new_Versions (Some [''23w14a'' \<mapsto> has_server, ''1.19.4'' \<mapsto> has_server]))))
          = Some vd \<and>
         (\<exists>facts. own vd ''1.20'' = Some facts \<and> \<not> hasServer facts)) \<and>
   fst (servers sample_net
          (new_Versions (Some [''23w14a'' \<mapsto> has_server, ''1.20'' \<mapsto> has_server,
                               ''1.19.4'' \<mapsto> has_server]))) =
     Inr \<lparr>latest = \<lparr>release' = ''1.20'', snapshot' = ''23w14a''\<rparr>,
          versions = [entry ''23w14a'' snapshot, entry ''1.20'' release, entry ''1.19.4'' release]\<rparr> \<and>
   fst (servers inherited_net (new_Versions (Some [''1.20'' \<mapsto> has_server]))) =
     Inr \<lparr>latest = \<lparr>release' = ''1.20'', snapshot' = []\<rparr>,
          versions = [entry ''1.20'' release]\<rparr>"
proof -
  let ?st = "new_Versions (Some [''23w14a'' \<mapsto> has_server, ''1.19.4'' \<mapsto> has_server])"
  let ?st3 = "new_Versions (Some [''23w14a'' \<mapsto> has_server, ''1.20'' \<mapsto> has_server,
                               ''1.19.4'' \<mapsto> has_server])"
  let ?st1 = "new_Versions (Some [''1.20'' \<mapsto> has_server])"
  let ?v = "\<lparr>latest = \<lparr>release' = ''1.19.4'', snapshot' = ''23w14a''\<rparr>,
            versions = [entry ''23w14a'' snapshot, entry ''1.19.4'' release]\<rparr>"
  have m: "manifest_reply sample_net = Inr sample_manifest" by (simp add: sample_net_def)
  have mi: "manifest_reply inherited_net = Inr inherited_manifest"
    by (simp add: inherited_net_def)
  have c: "cache ?st = \<lparr>own = [''23w14a'' \<mapsto> has_server, ''1.19.4'' \<mapsto> has_server], proto = None\<rparr>"
    "cache ?st3 = \<lparr>own = [''23w14a'' \<mapsto> has_server, ''1.20'' \<mapsto> has_server,
                           ''1.19.4'' \<mapsto> has_server], proto = None\<rparr>"
    "cache ?st1 = \<lparr>own = [''1.20'' \<mapsto> has_server], proto = None\<rparr>"
    by (simp_all add: cache_def new_Versions_def load_def)
  have hs: "hasServer has_server" by (simp add: has_server_def)
  have d: "distinct (map id' (versions sample_manifest))"
    by (simp add: sample_manifest_def entry_def)
  have dl: "\<forall>info \<in> set (versions sample_manifest).
      lookup (cache ?st) (id' info) = Undefined \<longrightarrow> delivered sample_net info"
    by (simp add: c lookup_def sample_manifest_def entry_def delivered_def sample_net_def)
  have cov: "\<forall>info \<in> set (versions sample_manifest). lookup (cache ?st3) (id' info) \<noteq> Undefined"
    by (simp add: c lookup_def sample_manifest_def entry_def)
  have covi: "\<forall>info \<in> set (versions inherited_manifest). lookup (cache ?st1) (id' info) \<noteq> Undefined"
    by (simp add: c lookup_def Object_prototype_def inherited_manifest_def entry_def)
  note t = servers_view [of sample_net ?st ?v "snd (servers sample_net ?st)"
      sample_manifest sample_manifest]
  have f: "filter (\<lambda>info. truthy hasServer (facts_after sample_net ?st info))
              (versions sample_manifest) = versions ?v"
    by (simp add: c hs lookup_def Object_prototype_def facts_after_def sample_manifest_def
          entry_def sample_net_def facts_of_def)
  from t [THEN conjunct2, THEN conjunct2, THEN mp, OF conjI [OF m conjI [OF d dl]]]
  have "fst (servers sample_net ?st) = Inr ?v"
    unfolding f by (simp add: latest_of_def entry_def)
  then have eq: "servers sample_net ?st = (Inr ?v, snd (servers sample_net ?st))"
    by (metis prod.collapse)
  with t obtain m' vd where m': "manifest_reply sample_net = Inr m'"
    and vd: "versions' (snd (servers sample_net ?st)) = Some vd"
    and all: "\<forall>info \<in> set (versions m').
            lookup vd (id' info) \<noteq> Undefined \<and>
            (\<forall>facts. own vd (id' info) = Some facts \<longrightarrow>
               (hasServer facts \<longleftrightarrow> id' info \<in> set (map id' (versions ?v))))"
    by blast
  from m' have "m' = sample_manifest" by (simp add: sample_net_def)
  then have "entry ''1.20'' release \<in> set (versions m')" by (simp add: sample_manifest_def)
  with all have "lookup vd (id' (entry ''1.20'' release)) \<noteq> Undefined"
    and "\<forall>facts. own vd (id' (entry ''1.20'' release)) = Some facts \<longrightarrow>
         (hasServer facts \<longleftrightarrow> id' (entry ''1.20'' release) \<in> set (map id' (versions ?v)))"
    by blast+
  then have l: "lookup vd ''1.20'' \<noteq> Undefined"
    and n: "\<forall>facts. own vd ''1.20'' = Some facts \<longrightarrow> \<not> hasServer facts"
    by (simp_all add: entry_def)
  from l obtain facts where "own vd ''1.20'' = Some facts"
    by (rule lookup_defined [THEN exE]) (simp_all add: Object_prototype_def)
  with n vd have b: "\<exists>vd. versions' (snd (servers sample_net ?st)) = Some vd \<and>
         (\<exists>facts. own vd ''1.20'' = Some facts \<and> \<not> hasServer facts)" by blast
  have f3: "filter (\<lambda>info. truthy hasServer (lookup (cache ?st3) (id' info)))
              (versions sample_manifest) = versions sample_manifest"
    by (simp add: c hs lookup_def sample_manifest_def entry_def)
  from servers_view [of sample_net ?st3 ?v "snd (servers sample_net ?st)"
      sample_manifest sample_manifest,
      THEN conjunct2, THEN conjunct1, THEN mp, OF conjI [OF m cov]]
  have e3: "fst (servers sample_net ?st3) =
     Inr \<lparr>latest = \<lparr>release' = ''1.20'', snapshot' = ''23w14a''\<rparr>,
          versions = [entry ''23w14a'' snapshot, entry ''1.20'' release, entry ''1.19.4'' release]\<rparr>"
    unfolding f3 by (simp add: sample_manifest_def latest_of_def entry_def)
  have f1: "filter (\<lambda>info. truthy hasServer (lookup (cache ?st1) (id' info)))
              (versions inherited_manifest) = [entry ''1.20'' release]"
    by (simp add: c hs lookup_def Object_prototype_def inherited_manifest_def entry_def)
  from servers_view [of inherited_net ?st1 ?v "snd (servers sample_net ?st)"
      inherited_manifest inherited_manifest,
      THEN conjunct2, THEN conjunct1, THEN mp, OF conjI [OF mi covi]]
  have e1: "fst (servers inherited_net ?st1) =
     Inr \<lparr>latest = \<lparr>release' = ''1.20'', snapshot' = []\<rparr>,
          versions = [entry ''1.20'' release]\<rparr>"
    unfolding f1 by (simp add: latest_of_def entry_def)
  from eq b e3 e1 show ?thesis by simp
qed

section \<open>The patterns of properties.ts, read as functions\<close>

lemmas matches_basic = matches.simps(1-4) matches.simps(6-9)

lemma Canonicalize_eq [simp]: "Canonicalize c = CHR ''='' \<longleftrightarrow> c = CHR ''=''"
  by (auto simp: Canonicalize_def split: option.splits if_splits)

lemma Canonicalize_hash [simp]: "Canonicalize c = CHR ''#'' \<longleftrightarrow> c = CHR ''#''"
  by (auto simp: Canonicalize_def split: option.splits if_splits)

lemma Canonicalize_eq' [simp]: "Canonicalize (CHR ''='') = CHR ''=''"
  by (simp add: Canonicalize_def)

lemma Canonicalize_hash' [simp]: "Canonicalize (CHR ''#'') = CHR ''#''"
  by (simp add: Canonicalize_def)

lemma star_chars_Nil:
  "concat (map f (matches (Star (Chars P)) (p, [], caps))) = f (p, [], caps)"
  by (simp add: matches.simps(5))

lemma star_chars_Cons:
  "concat (map f (matches (Star (Chars P)) (p, c # cs, caps))) =
     (if P c then concat (map f (matches (Star (Chars P)) (c # p, cs, caps))) else [])
     @ f (p, c # cs, caps)"
  by (simp add: matches.simps(5))

lemma matches_eq_sign:
  "matches (LitI ''='') (p, s, caps) =
     (case s of [] \<Rightarrow> [] | c # cs \<Rightarrow> if c = CHR ''='' then [(c # p, cs, caps)] else [])"
  by (simp add: LitI_def split: list.splits)

lemma matches_hash:
  "matches (LitI ''#'') (p, s, caps) =
     (case s of [] \<Rightarrow> [] | c # cs \<Rightarrow> if c = CHR ''#'' then [(c # p, cs, caps)] else [])"
  by (simp add: LitI_def split: list.splits)

text \<open>The value and the end: \<^verbatim>\<open>(.*)$\<close>\<close>

lemma value_end_suffix:
  "concat (map (\<lambda>(p', rest', caps').
                  matches Dollar (p', rest', (2, take (length (pre @ s) - length rest') (pre @ s)) # caps'))
               (matches (Star (Chars dot)) (rev pre @ p, s, caps))) =
     (if list_all dot s then [(rev (pre @ s) @ p, [], (2, pre @ s) # caps)] else [])"
proof (induction s arbitrary: pre)
  case Nil
  show ?case by (simp add: star_chars_Nil)
next
  case (Cons c cs)
  from Cons.IH [of "pre @ [c]"] show ?case by (simp add: star_chars_Cons)
qed

lemma matches_value_end:
  "matches (Seq (Group 2 (Star (Chars dot))) Dollar) (p, s, caps) =
     (if list_all dot s then [(rev s @ p, [], (2, s) # caps)] else [])"
  using value_end_suffix [of "[]" s p caps] by (simp add: map_concat comp_def case_prod_unfold)

text \<open>The sign and the value at the current position: \<^verbatim>\<open>=(.*)$\<close>\<close>

lemma matches_sign_value_end:
  "matches (Seq (LitI ''='') (Seq (Group 2 (Star (Chars dot))) Dollar)) (rev pre @ p, s, (1, pre) # caps) =
     (case here pre s of
        None \<Rightarrow> []
      | Some (n, v) \<Rightarrow> [(rev (pre @ s) @ p, [], (2, v) # (1, n) # caps)])"
proof (cases s)
  case Nil
  then show ?thesis by (simp add: matches_eq_sign)
next
  case (Cons c cs)
  have "matches (Seq (LitI ''='') (Seq (Group 2 (Star (Chars dot))) Dollar))
           (rev pre @ p, c # cs, (1, pre) # caps) =
        (if c = CHR ''='' then
           matches (Seq (Group 2 (Star (Chars dot))) Dollar) (c # rev pre @ p, cs, (1, pre) # caps)
         else [])"
    using matches_eq_sign [of "rev pre @ p" "c # cs" "(1, pre) # caps"]
    by (simp del: matches.simps(9))
  with Cons show ?thesis by (simp add: matches_value_end del: matches_basic)
qed

text \<open>The name, the sign and the value, with the name begun: the rest of \<^verbatim>\<open>(.+)=(.*)$\<close>\<close>

lemma name_suffix:
  fixes r0 :: string and p :: string and caps :: captures
  defines "F \<equiv> \<lambda>st. case st of (p', rest', caps') \<Rightarrow>
              matches (Seq (LitI ''='') (Seq (Group 2 (Star (Chars dot))) Dollar))
                (p', rest', (1, take (length r0 - length rest') r0) # caps')"
  assumes "r0 = pre @ s"
  shows "(last_eq pre s = None \<longrightarrow>
            concat (map F (matches (Star (Chars dot)) (rev pre @ p, s, caps))) = []) \<and>
         (\<forall>n v. last_eq pre s = Some (n, v) \<longrightarrow>
            (\<exists>t. concat (map F (matches (Star (Chars dot)) (rev pre @ p, s, caps))) =
                 (rev r0 @ p, [], (2, v) # (1, n) # caps) # t))"
  using assms(2)
proof (induction s arbitrary: pre)
  case Nil
  have "F (rev pre @ p, [], caps) = []"
    using matches_sign_value_end [of pre p "[]" caps] Nil unfolding F_def
    by (simp del: matches_basic)
  then show ?case by (simp add: star_chars_Nil del: matches_basic)
next
  case (Cons c cs)
  have r0: "r0 = (pre @ [c]) @ cs" using Cons.prems by simp
  have t: "take (length r0 - length (c # cs)) r0 = pre" using Cons.prems by simp
  have "rev (pre @ c # cs) @ p = rev r0 @ p" using Cons.prems by simp
  then have "matches (Seq (LitI ''='') (Seq (Group 2 (Star (Chars dot))) Dollar))
               (rev pre @ p, c # cs, (1, take (length r0 - length (c # cs)) r0) # caps) =
             (case here pre (c # cs) of
                None \<Rightarrow> []
              | Some (n, v) \<Rightarrow> [(rev r0 @ p, [], (2, v) # (1, n) # caps)])"
    using matches_sign_value_end [of pre p "c # cs" caps] unfolding t by metis
  then have cur: "F (rev pre @ p, c # cs, caps) =
             (case here pre (c # cs) of
                None \<Rightarrow> []
              | Some (n, v) \<Rightarrow> [(rev r0 @ p, [], (2, v) # (1, n) # caps)])"
    unfolding F_def by simp
  have step: "concat (map F (matches (Star (Chars dot)) (rev pre @ p, c # cs, caps))) =
      (if dot c then concat (map F (matches (Star (Chars dot)) (rev (pre @ [c]) @ p, cs, caps)))
       else []) @ F (rev pre @ p, c # cs, caps)"
    by (simp add: star_chars_Cons del: matches_basic)
  note ih = Cons.IH [OF r0]
  show ?case
  proof (cases "dot c \<and> last_eq (pre @ [c]) cs \<noteq> None")
    case True
    then obtain n v where nv: "last_eq (pre @ [c]) cs = Some (n, v)" by auto
    with ih obtain t where
      "concat (map F (matches (Star (Chars dot)) (rev (pre @ [c]) @ p, cs, caps))) =
         (rev r0 @ p, [], (2, v) # (1, n) # caps) # t" by blast
    with True nv show ?thesis unfolding step by simp
  next
    case False
    then have l: "last_eq pre (c # cs) = here pre (c # cs)"
      by (cases "last_eq (pre @ [c]) cs") (auto simp del: here.simps)
    from False ih have
      "(if dot c then concat (map F (matches (Star (Chars dot)) (rev (pre @ [c]) @ p, cs, caps)))
        else []) = []" by auto
    then have "concat (map F (matches (Star (Chars dot)) (rev pre @ p, c # cs, caps))) =
        F (rev pre @ p, c # cs, caps)" unfolding step by simp
    then show ?thesis unfolding l cur by (cases "here pre (c # cs)") auto
  qed
qed

lemma matches_KeyValuePattern:
  "(kv r = None \<longrightarrow> matches KeyValuePattern (p, r, caps) = []) \<and>
   (\<forall>n v. kv r = Some (n, v) \<longrightarrow>
      (\<exists>t. matches KeyValuePattern (p, r, caps) = (rev r @ p, [], (2, v) # (1, n) # caps) # t))"
proof (cases r)
  case Nil
  then show ?thesis by (simp add: KeyValuePattern_def Plus_def matches_hash)
next
  case (Cons c cs)
  define R where "R = Seq (LitI ''='') (Seq (Group 2 (Star (Chars dot))) Dollar)"
  have K: "KeyValuePattern = Seq (NegLookahead (LitI ''#'')) (Seq (Group 1 (Plus (Chars dot))) R)"
    by (simp add: KeyValuePattern_def R_def)
  show ?thesis
  proof (cases "c \<noteq> CHR ''#'' \<and> dot c")
    case False
    with Cons show ?thesis by (auto simp add: K Plus_def matches_hash)
  next
    case True
    have look: "matches (NegLookahead (LitI ''#'')) (p, c # cs, caps) = [(p, c # cs, caps)]"
      using True by (simp add: matches_hash)
    have grp: "matches (Group 1 (Plus (Chars dot))) (p, c # cs, caps) =
        map (\<lambda>(p', rest', caps').
               (p', rest', (1, take (length (c # cs) - length rest') (c # cs)) # caps'))
            (matches (Star (Chars dot)) (c # p, cs, caps))"
      using True by (simp add: Plus_def)
    have "matches KeyValuePattern (p, c # cs, caps) =
        concat (map (matches R) (matches (Group 1 (Plus (Chars dot))) (p, c # cs, caps)))"
      unfolding K by (simp only: matches.simps(3) look list.map concat.simps append_Nil2)
    also have "\<dots> = concat (map (\<lambda>st. case st of (p', rest', caps') \<Rightarrow>
              matches R (p', rest', (1, take (length (c # cs) - length rest') (c # cs)) # caps'))
           (matches (Star (Chars dot)) (rev [c] @ p, cs, caps)))"
      unfolding grp by (simp add: comp_def case_prod_unfold del: matches_basic)
    finally have "matches KeyValuePattern (p, c # cs, caps) =
        concat (map (\<lambda>st. case st of (p', rest', caps') \<Rightarrow>
              matches (Seq (LitI ''='') (Seq (Group 2 (Star (Chars dot))) Dollar))
                (p', rest', (1, take (length (c # cs) - length rest') (c # cs)) # caps'))
           (matches (Star (Chars dot)) (rev [c] @ p, cs, caps)))"
      unfolding R_def .
    with name_suffix [of "c # cs" "[c]" cs p caps] Cons True show ?thesis by simp
  qed
qed

lemma matches_space_KeyValuePattern:
  "(first_kv l = None \<longrightarrow>
      concat (map (matches KeyValuePattern) (matches (Star (Chars space)) (p, l, caps))) = []) \<and>
   (\<forall>n v. first_kv l = Some (n, v) \<longrightarrow>
      (\<exists>t. concat (map (matches KeyValuePattern) (matches (Star (Chars space)) (p, l, caps))) =
           (rev l @ p, [], (2, v) # (1, n) # caps) # t))"
proof (induction l arbitrary: p)
  case Nil
  show ?case using matches_KeyValuePattern [of "[]" p caps] by (simp add: star_chars_Nil)
next
  case (Cons c cs)
  note cur = matches_KeyValuePattern [of "c # cs" p caps]
  note ih = Cons.IH [of "c # p"]
  have step: "concat (map (matches KeyValuePattern) (matches (Star (Chars space)) (p, c # cs, caps))) =
      (if space c
       then concat (map (matches KeyValuePattern) (matches (Star (Chars space)) (c # p, cs, caps)))
       else []) @ matches KeyValuePattern (p, c # cs, caps)"
    by (rule star_chars_Cons)
  show ?case
  proof (cases "space c \<and> first_kv cs \<noteq> None")
    case True
    then obtain n v where nv: "first_kv cs = Some (n, v)" by auto
    with ih obtain t where
      "concat (map (matches KeyValuePattern) (matches (Star (Chars space)) (c # p, cs, caps))) =
         (rev cs @ c # p, [], (2, v) # (1, n) # caps) # t" by blast
    with True nv show ?thesis unfolding step by simp
  next
    case False
    then have l: "first_kv (c # cs) = kv (c # cs)"
      by (cases "first_kv cs") (auto simp del: kv.simps)
    from False ih have
      "(if space c
        then concat (map (matches KeyValuePattern) (matches (Star (Chars space)) (c # p, cs, caps)))
        else []) = []" by auto
    then have "concat (map (matches KeyValuePattern) (matches (Star (Chars space)) (p, c # cs, caps))) =
        matches KeyValuePattern (p, c # cs, caps)" unfolding step by simp
    then show ?thesis unfolding l using cur by simp
  qed
qed

lemma search_Caret: "prev \<noteq> [] \<Longrightarrow> search (Seq Caret r) prev s = None"
  by (induction s arbitrary: prev) simp_all

lemma exec_Caret:
  "exec (Seq Caret r) s =
     (case matches r ([], s, []) of
        [] \<Rightarrow> None
      | (prev', rest', caps) # _ \<Rightarrow> Some ([], take (length s - length rest') s, rest', caps))"
  by (cases s) (simp_all add: exec_def search_Caret split: list.splits)

lemma PropertyPattern_KeyValuePattern:
  "PropertyPattern = Seq Caret (Seq (Star (Chars space)) KeyValuePattern)"
  by (simp add: PropertyPattern_def KeyValuePattern_def)

lemma exec_PropertyPattern:
  "exec PropertyPattern l =
     (case first_kv l of
        None \<Rightarrow> None
      | Some (n, v) \<Rightarrow> Some ([], l, [], [(2, v), (1, n)]))"
proof (cases "first_kv l")
  case None
  with matches_space_KeyValuePattern [of l "[]" "[]"]
  have "matches (Seq (Star (Chars space)) KeyValuePattern) ([], l, []) = []" by simp
  with None show ?thesis unfolding PropertyPattern_KeyValuePattern exec_Caret
    by (simp only: list.case option.case)
next
  case (Some r)
  obtain n v where r: "r = (n, v)" by (cases r)
  with Some matches_space_KeyValuePattern [of l "[]" "[]"] obtain t where
    "matches (Seq (Star (Chars space)) KeyValuePattern) ([], l, []) =
       (rev l @ [], [], [(2, v), (1, n)]) # t" by auto
  with Some r show ?thesis unfolding PropertyPattern_KeyValuePattern exec_Caret by simp
qed

lemma matches_dots_end:
  "concat (map (matches Dollar) (matches (Star (Chars dot)) (p, s, caps))) =
     (if list_all dot s then [(rev s @ p, [], caps)] else [])"
proof (induction s arbitrary: p)
  case Nil
  show ?case by (simp add: star_chars_Nil)
next
  case (Cons c cs)
  from Cons.IH [of "c # p"] show ?case by (simp add: star_chars_Cons)
qed

lemma test_CommentPattern: "test CommentPattern l = is_comment l"
proof (cases l)
  case Nil
  then show ?thesis by (simp add: test_def CommentPattern_def exec_Caret matches_hash)
next
  case (Cons c cs)
  have "matches (Seq (Plus (Chars dot)) Dollar) (p, cs, caps) =
      (if cs \<noteq> [] \<and> list_all dot cs then [(rev cs @ p, [], caps)] else [])" for p caps
  proof (cases cs)
    case Nil
    then show ?thesis by (simp add: Plus_def)
  next
    case (Cons d ds)
    with matches_dots_end [of "d # p" ds caps] show ?thesis
      by (simp add: Plus_def del: concat_eq_Nil_conv)
  qed
  then have "matches (Seq (LitI ''#'') (Seq (Plus (Chars dot)) Dollar)) ([], c # cs, []) =
      (if c = CHR ''#'' \<and> cs \<noteq> [] \<and> list_all dot cs then [(rev cs @ [c], [], [])] else [])"
    using matches_hash [of "[]" "c # cs" "[]"] by (simp del: matches_basic add: matches.simps(3))
  with Cons show ?thesis by (simp add: test_def CommentPattern_def exec_Caret)
qed

text \<open>The classification of a line in terms of the functions above.\<close>

lemma parse_line_eq:
  "parse_line l =
     (if is_comment l then Comment l
      else (case first_kv l of
              None \<Rightarrow> Null
            | Some (n, v) \<Rightarrow> Property \<lparr>name = n, value' = v\<rparr>))"
  by (simp add: parse_line_def test_CommentPattern exec_PropertyPattern group_def
        split: option.splits)

subsection \<open>The last sign\<close>

lemma dot_sign [simp]: "dot (CHR ''='')"
  by (simp add: dot_def)

lemma last_eq_no_sign: "CHR ''='' \<notin> set s \<Longrightarrow> last_eq pre s = None"
  by (induction s arbitrary: pre) auto

lemma last_eq_sign:
  "list_all dot s \<Longrightarrow> CHR ''='' \<in> set s \<Longrightarrow> \<exists>n v. last_eq pre s = Some (n, v)"
proof (induction s arbitrary: pre)
  case Nil
  then show ?case by simp
next
  case (Cons c cs)
  show ?case
  proof (cases "CHR ''='' \<in> set cs")
    case True
    with Cons obtain n v where "last_eq (pre @ [c]) cs = Some (n, v)" by fastforce
    with Cons.prems show ?thesis by simp
  next
    case False
    with Cons.prems have "c = CHR ''=''" by simp
    with Cons.prems False show ?thesis by (simp add: last_eq_no_sign)
  qed
qed

lemma last_eq_Some:
  "last_eq pre s = Some (n, v) \<Longrightarrow>
     n @ CHR ''='' # v = pre @ s \<and> list_all dot s \<and> CHR ''='' \<notin> set v \<and>
     length pre \<le> length n"
proof (induction s arbitrary: pre)
  case Nil
  then show ?case by simp
next
  case (Cons c cs)
  show ?case
  proof (cases "dot c \<and> last_eq (pre @ [c]) cs \<noteq> None")
    case True
    with Cons.prems have "last_eq (pre @ [c]) cs = Some (n, v)" by auto
    from Cons.IH [OF this] True show ?thesis by simp
  next
    case False
    with Cons.prems have h: "here pre (c # cs) = Some (n, v)"
      by (cases "last_eq (pre @ [c]) cs") (auto simp del: here.simps split: if_splits)
    then have c: "c = CHR ''=''" and d: "list_all dot cs" and n: "n = pre" and v: "v = cs"
      by (auto split: if_splits)
    have "dot c" using c by simp
    with False have "last_eq (pre @ [c]) cs = None"
      by (cases "last_eq (pre @ [c]) cs") auto
    with d have "CHR ''='' \<notin> set cs" using last_eq_sign [of cs "pre @ [c]"] by auto
    with c d n v \<open>dot c\<close> show ?thesis by simp
  qed
qed

lemma last_eq_split:
  "list_all dot m \<Longrightarrow> list_all dot v \<Longrightarrow> CHR ''='' \<notin> set v \<Longrightarrow>
     last_eq pre (m @ CHR ''='' # v) = Some (pre @ m, v)"
proof (induction m arbitrary: pre)
  case Nil
  then show ?case by (simp add: last_eq_no_sign)
next
  case (Cons c m)
  then show ?case by simp
qed

lemma kv_Some:
  "kv r = Some (n, v) \<Longrightarrow>
     n @ CHR ''='' # v = r \<and> list_all dot r \<and> CHR ''='' \<notin> set v \<and> n \<noteq> [] \<and> hd r \<noteq> CHR ''#''"
proof (cases r)
  case Nil
  assume "kv r = Some (n, v)"
  with Nil show ?thesis by simp
next
  case (Cons c cs)
  assume "kv r = Some (n, v)"
  with Cons have c: "c \<noteq> CHR ''#''" "dot c" and l: "last_eq [c] cs = Some (n, v)"
    by (auto split: if_splits)
  from last_eq_Some [OF l] c Cons show ?thesis by auto
qed

lemma first_kv_Some:
  "first_kv l = Some (n, v) \<Longrightarrow>
     \<exists>ws. l = ws @ n @ CHR ''='' # v \<and> list_all space ws \<and> kv (n @ CHR ''='' # v) = Some (n, v)"
proof (induction l)
  case Nil
  then show ?case by simp
next
  case (Cons c cs)
  show ?case
  proof (cases "space c \<and> first_kv cs \<noteq> None")
    case True
    with Cons.prems have "first_kv cs = Some (n, v)" by auto
    from Cons.IH [OF this] obtain ws where
      "cs = ws @ n @ CHR ''='' # v" "list_all space ws" "kv (n @ CHR ''='' # v) = Some (n, v)"
      by blast
    with True have "c # cs = (c # ws) @ n @ CHR ''='' # v \<and> list_all space (c # ws) \<and>
        kv (n @ CHR ''='' # v) = Some (n, v)" by simp
    then show ?thesis by blast
  next
    case False
    with Cons.prems have k: "kv (c # cs) = Some (n, v)"
      by (cases "first_kv cs") (auto simp del: kv.simps split: if_splits)
    from kv_Some [OF k] have "c # cs = [] @ n @ CHR ''='' # v" by simp
    moreover have "list_all space []" by simp
    moreover from kv_Some [OF k] k have "kv (n @ CHR ''='' # v) = Some (n, v)" by simp
    ultimately show ?thesis by blast
  qed
qed

lemma first_kv_not_space:
  "kv (c # cs) \<noteq> None \<Longrightarrow> \<not> space c \<Longrightarrow> first_kv (c # cs) = kv (c # cs)"
  by (simp del: kv.simps)

lemma first_kv_fixpoint:
  assumes "first_kv l = Some (n, v)"
  shows "first_kv (n @ CHR ''='' # v) = Some (n, v)"
  using assms
proof (induction l)
  case Nil
  then show ?case by simp
next
  case (Cons c cs)
  show ?case
  proof (cases "space c \<and> first_kv cs \<noteq> None")
    case True
    with Cons.prems have "first_kv cs = Some (n, v)" by auto
    then show ?thesis by (rule Cons.IH)
  next
    case False
    with Cons.prems have k: "kv (c # cs) = Some (n, v)"
      by (cases "first_kv cs") (auto simp del: kv.simps split: if_splits)
    from kv_Some [OF k] have "n @ CHR ''='' # v = c # cs" by simp
    with Cons.prems show ?thesis by simp
  qed
qed

lemma first_kv_strip:
  "list_all space ws \<Longrightarrow> kv r = Some (n, v) \<Longrightarrow> \<not> space (hd r) \<Longrightarrow>
     first_kv (ws @ r) = Some (n, v)"
proof (induction ws)
  case Nil
  then show ?case by (cases r) (simp_all del: kv.simps(2))
next
  case (Cons w ws)
  then show ?case by (simp del: kv.simps)
qed

subsection \<open>Lines\<close>

lemma CR_LF [simp]: "CR \<noteq> LF" "LF \<noteq> CR"
  by (simp_all add: CR_def LF_def)

lemma matches_NewlinePattern:
  "matches NewlinePattern (prev, s, []) =
     (case s of
        [] \<Rightarrow> []
      | a # t \<Rightarrow>
          (if a = LF then [(LF # prev, t, [])]
           else if a = CR then
             (case t of [] \<Rightarrow> [] | b # u \<Rightarrow> if b = LF then [(LF # CR # prev, u, [])] else [])
           else []))"
  by (auto simp add: NewlinePattern_def Opt_def Lit_def split: list.splits)

lemma replace_NewlinePattern: "replace NewlinePattern (\<lambda>m. [LF]) prev s = normalize s"
proof (induction s arbitrary: prev rule: normalize.induct)
  case (1 a b cs)
  show ?case
  proof (cases "a = CR \<and> b = LF")
    case True
    with 1 have "replace NewlinePattern (\<lambda>m. [LF]) (LF # CR # prev) cs = normalize cs" by simp
    with True show ?thesis
      by (subst replace.simps(2)) (simp add: matches_NewlinePattern del: replace.simps)
  next
    case False
    with 1 have "replace NewlinePattern (\<lambda>m. [LF]) (a # prev) (b # cs) = normalize (b # cs)"
      by simp
    with False show ?thesis
      by (subst replace.simps(2)) (auto simp add: matches_NewlinePattern simp del: replace.simps)
  qed
next
  case (2 a)
  then show ?case by (simp add: matches_NewlinePattern)
next
  case 3
  then show ?case by (simp add: matches_NewlinePattern)
qed

lemma normalize_Cons: "a \<noteq> CR \<Longrightarrow> normalize (a # s) = a # normalize s"
  by (cases s) simp_all

lemma normalize_append: "CR \<notin> set l \<Longrightarrow> normalize (l @ s) = l @ normalize s"
  by (induction l) (auto simp: normalize_Cons)

lemma normalize_id: "CR \<notin> set l \<Longrightarrow> normalize l = l"
  using normalize_append [of l "[]"] by simp

lemma dot_no_CR: "list_all dot l \<Longrightarrow> CR \<notin> set l"
  by (induction l) (auto simp: dot_def CR_def)

lemma dot_no_LF: "list_all dot l \<Longrightarrow> LF \<notin> set l"
  by (induction l) (auto simp: dot_def LF_def)

lemma normalize_join:
  "\<forall>l \<in> set ls. list_all dot l \<Longrightarrow> normalize (join (EOL os) ls) = join [LF] ls"
proof (induction ls rule: induct_list012)
  case 1
  show ?case by simp
next
  case (2 l)
  then show ?case by (simp add: normalize_id dot_no_CR)
next
  case (3 l l' ls)
  then have "CR \<notin> set l" by (simp add: dot_no_CR)
  moreover from 3 have "normalize (join (EOL os) (l' # ls)) = join [LF] (l' # ls)" by simp
  ultimately show ?case by (cases os) (simp_all add: normalize_append normalize_Cons)
qed

lemma split_not_Nil [simp]: "split sep s \<noteq> []"
  by (induction s) (auto split: list.splits)

lemma split_line: "sep \<notin> set l \<Longrightarrow> split sep (l @ sep # s) = l # split sep s"
  by (induction l) auto

lemma split_last_line: "sep \<notin> set l \<Longrightarrow> split sep l = [l]"
  by (induction l) auto

lemma split_join:
  "ls \<noteq> [] \<Longrightarrow> \<forall>l \<in> set ls. LF \<notin> set l \<Longrightarrow> split LF (join [LF] ls) = ls"
proof (induction ls rule: induct_list012)
  case 1
  then show ?case by simp
next
  case (2 l)
  then show ?case by (simp add: split_last_line)
next
  case (3 l l' ls)
  then show ?case by (simp add: split_line)
qed

lemma join_Cons: "join sep ((c # l) # ls) = c # join sep (l # ls)"
  by (cases ls) simp_all

lemma join_split: "join [sep] (split sep s) = s"
proof (induction s)
  case Nil
  show ?case by simp
next
  case (Cons c cs)
  obtain l ls where l: "split sep cs = l # ls" using split_not_Nil [of sep cs] by (cases "split sep cs") auto
  with Cons show ?case by (simp add: join_Cons)
qed

subsection \<open>Rendering a classified line\<close>

lemma render_parse_dot: "list_all dot (render_line (parse_line l))"
proof (cases "is_comment l")
  case True
  then have "list_all dot l" by (cases l) (auto simp: dot_def)
  with True show ?thesis by (simp add: parse_line_eq render_line_def)
next
  case False
  show ?thesis
  proof (cases "first_kv l")
    case None
    with False show ?thesis by (simp add: parse_line_eq render_line_def)
  next
    case (Some r)
    obtain n v where r: "r = (n, v)" by (cases r)
    with Some have "first_kv l = Some (n, v)" by simp
    from first_kv_Some [OF this] have "kv (n @ CHR ''='' # v) = Some (n, v)" by blast
    from kv_Some [OF this] have "list_all dot (n @ CHR ''='' # v)" by simp
    with False Some r show ?thesis by (simp add: parse_line_eq render_line_def)
  qed
qed

lemma parse_render_parse: "parse_line (render_line (parse_line l)) = parse_line l"
proof (cases "is_comment l")
  case True
  then show ?thesis by (simp add: parse_line_eq render_line_def)
next
  case False
  show ?thesis
  proof (cases "first_kv l")
    case None
    with False show ?thesis by (simp add: parse_line_eq render_line_def)
  next
    case (Some r)
    obtain n v where r: "r = (n, v)" by (cases r)
    with Some have f: "first_kv l = Some (n, v)" by simp
    from first_kv_Some [OF f] have "kv (n @ CHR ''='' # v) = Some (n, v)" by blast
    from kv_Some [OF this] have "hd (n @ CHR ''='' # v) \<noteq> CHR ''#''" by blast
    then have c: "\<not> is_comment (n @ CHR ''='' # v)" by (cases "n @ CHR ''='' # v") auto
    from first_kv_fixpoint [OF f] c False Some r show ?thesis
      by (simp add: parse_line_eq render_line_def)
  qed
qed

lemma render_parse_canonical: "canonical l \<Longrightarrow> render_line (parse_line l) = l"
proof (cases l)
  case Nil
  then show ?thesis by (simp add: parse_line_eq render_line_def)
next
  case (Cons c cs)
  assume can: "canonical l"
  show ?thesis
  proof (cases "c = CHR ''#''")
    case True
    with can Cons have "is_comment l" by simp
    then show ?thesis by (simp add: parse_line_eq render_line_def)
  next
    case False
    with can Cons have d: "list_all dot (c # cs)" and s: "\<not> space c" and e: "CHR ''='' \<in> set cs"
      by simp_all
    from d e obtain n v where lq: "last_eq [c] cs = Some (n, v)"
      using last_eq_sign [of cs "[c]"] by auto
    with False d have k: "kv (c # cs) = Some (n, v)" by simp
    with s have "first_kv (c # cs) = Some (n, v)" by (simp del: kv.simps)
    moreover from kv_Some [OF k] have "n @ CHR ''='' # v = c # cs" by simp
    moreover have "\<not> is_comment (c # cs)" using False by simp
    ultimately show ?thesis using Cons by (simp add: parse_line_eq render_line_def)
  qed
qed

lemma is_comment_strip:
  "list_all space ws \<Longrightarrow> n \<noteq> [] \<Longrightarrow> hd n \<noteq> CHR ''#'' \<Longrightarrow> \<not> is_comment (ws @ n @ s)"
proof (cases ws)
  case Nil
  assume "n \<noteq> []" "hd n \<noteq> CHR ''#''"
  with Nil show ?thesis by (cases n) auto
next
  case (Cons w ws')
  assume "list_all space ws"
  with Cons have "space w" by simp
  then have "w \<noteq> CHR ''#''" by (auto simp: space_def)
  with Cons show ?thesis by simp
qed

text \<open>
  C6 (as amended). A line made of white space, a name and a value around a sign \<^verbatim>\<open>=\<close>, where
  the name is not empty and starts neither with white space nor with \<^verbatim>\<open>#\<close>, neither name
  nor value has a line terminator, and the value has no \<^verbatim>\<open>=\<close>, is classified as the property
  of that name and value: the line is split at its last \<^verbatim>\<open>=\<close>, and the white space before
  the name is dropped. Conversely every line classified as a property is such a line: its
  name is not empty and its value has no \<^verbatim>\<open>=\<close>.
\<close>

theorem property_line_splits_at_last_sign:
  "(list_all space ws \<and> n \<noteq> [] \<and> \<not> space (hd n) \<and> hd n \<noteq> CHR ''#'' \<and>
    list_all dot n \<and> list_all dot v \<and> CHR ''='' \<notin> set v \<longrightarrow>
      parse_line (ws @ n @ ''='' @ v) = Property \<lparr>name = n, value' = v\<rparr>) \<and>
   (parse_line l = Property q \<longrightarrow>
      (\<exists>ws. l = ws @ name q @ ''='' @ value' q \<and> list_all space ws) \<and>
      name q \<noteq> [] \<and> CHR ''='' \<notin> set (value' q))"
proof (intro conjI impI)
  assume a: "list_all space ws \<and> n \<noteq> [] \<and> \<not> space (hd n) \<and> hd n \<noteq> CHR ''#'' \<and>
    list_all dot n \<and> list_all dot v \<and> CHR ''='' \<notin> set v"
  then obtain c m where n: "n = c # m" by (cases n) auto
  with a have "last_eq [c] (m @ CHR ''='' # v) = Some ([c] @ m, v)"
    by (intro last_eq_split) simp_all
  with a n have k: "kv (n @ CHR ''='' # v) = Some (n, v)" by simp
  from a n have "\<not> space (hd (n @ CHR ''='' # v))" by simp
  with a k have "first_kv (ws @ n @ CHR ''='' # v) = Some (n, v)" by (intro first_kv_strip) simp_all
  moreover from a have "\<not> is_comment (ws @ n @ CHR ''='' # v)" by (intro is_comment_strip) simp_all
  ultimately show "parse_line (ws @ n @ ''='' @ v) = Property \<lparr>name = n, value' = v\<rparr>"
    by (simp add: parse_line_eq)
next
  assume p: "parse_line l = Property q"
  then obtain n v where f: "first_kv l = Some (n, v)" and q: "q = \<lparr>name = n, value' = v\<rparr>"
    by (auto simp: parse_line_eq split: if_splits option.splits)
  from first_kv_Some [OF f] obtain ws where
    l: "l = ws @ n @ CHR ''='' # v" and ws: "list_all space ws"
    and k: "kv (n @ CHR ''='' # v) = Some (n, v)" by blast
  from l ws q show "\<exists>ws. l = ws @ name q @ ''='' @ value' q \<and> list_all space ws" by auto
  from kv_Some [OF k] q show "name q \<noteq> []" by simp
  from kv_Some [OF k] q show "CHR ''='' \<notin> set (value' q)" by simp
qed

theorem property_line_splits_at_last_sign_witness:
  "parse_line ''a=b=c'' = Property \<lparr>name = ''a=b'', value' = ''c''\<rparr> \<and>
   parse_line ''  motd=A Minecraft Server'' = Property \<lparr>name = ''motd'', value' = ''A Minecraft Server''\<rparr>"
  using property_line_splits_at_last_sign [of "[]" "''a=b''" "''c''"]
    property_line_splits_at_last_sign [of "''  ''" "''motd''" "''A Minecraft Server''"]
  by (simp add: space_def dot_def)

text \<open>The line \<^verbatim>\<open>a=b=c\<close> is not a comment, has a sign, and is not split at its first sign;
  the line \<^verbatim>\<open>=b\<close> is not a comment, has a sign, and is not a property.\<close>

theorem first_sign_does_not_split:
  "\<not> test CommentPattern ''a=b=c'' \<and> contains ''='' ''a=b=c'' \<and>
   parse_line ''a=b=c'' = Property \<lparr>name = ''a=b'', value' = ''c''\<rparr> \<and>
   parse_line ''a=b=c'' \<noteq> Property \<lparr>name = ''a'', value' = ''b=c''\<rparr> \<and>
   \<not> test CommentPattern ''=b'' \<and> contains ''='' ''=b'' \<and> parse_line ''=b'' = Null"
  by (simp add: parse_line_eq test_CommentPattern dot_def space_def)

section \<open>Loading, setting nothing, loading again\<close>

lemma lines_of_eq: "lines_of text = split LF (normalize text)"
  by (simp add: lines_of_def replace_NewlinePattern)

lemma data_loadProperties:
  "fs (path' p) = Some text \<Longrightarrow>
     loadProperties fs p = (Inr (), p\<lparr>data := map parse_line (lines_of text)\<rparr>)"
  by (simp add: loadProperties_def readFile_def lines_of_def)

lemma update_line_Nil [simp]: "update_line [] line = line"
  by (cases line) (simp_all add: update_line_def)

lemma update_line_Nil_id: "update_line [] = (\<lambda>line. line)"
  by (rule ext) simp

lemma setProperties_Nil:
  "setProperties os [] fs p =
     (properties_of (data p), fs(path' p \<mapsto> join (EOL os) (map render_line (data p))), p)"
  by (simp add: setProperties_def writeFile_def Let_def update_line_Nil_id)

lemma lines_of_rendered:
  assumes "ls \<noteq> []"
  shows "lines_of (join (EOL os) (map render_line (map parse_line ls))) =
           map render_line (map parse_line ls)"
proof -
  let ?rs = "map render_line (map parse_line ls)"
  have d: "\<forall>l \<in> set ?rs. list_all dot l" by (auto simp: render_parse_dot)
  then have "normalize (join (EOL os) ?rs) = join [LF] ?rs" by (rule normalize_join)
  moreover have "split LF (join [LF] ?rs) = ?rs"
    using assms d by (intro split_join) (auto simp: dot_no_LF)
  ultimately show ?thesis by (simp add: lines_of_eq)
qed

text \<open>
  C5 (as amended). For every file: after \<^verbatim>\<open>loadProperties\<close>, \<^verbatim>\<open>setProperties([])\<close> and
  \<^verbatim>\<open>loadProperties\<close> again, the line sequence in memory is the one the first load made
  (and \<^verbatim>\<open>setProperties([])\<close> left it as it was). The file written holds the lines in
  memory, each as it is rendered, joined by \<^verbatim>\<open>os.EOL\<close>. It has the text of the file read, up
  to the ends of lines, when every line of the file read is empty, or a \<^verbatim>\<open>#\<close> followed by
  at least one character, or starts with a character that is neither white space nor
  \<^verbatim>\<open>#\<close> and has a \<^verbatim>\<open>=\<close> later on, and no line has a carriage return of its own.
\<close>

theorem reload_after_setting_nothing:
  assumes "fs (path' p) = Some text"
    and "loadProperties fs p = (r1, p1)"
    and "setProperties os [] fs p1 = (ret, fs2, p2)"
    and "loadProperties fs2 p2 = (r3, p3)"
  shows "r1 = Inr () \<and> r3 = Inr () \<and> data p2 = data p1 \<and> data p3 = data p1 \<and>
         fs2 (path' p) = Some (join (EOL os) (map render_line (data p1))) \<and>
         (list_all canonical (lines_of text) \<longrightarrow>
            fs2 (path' p) = Some (join (EOL os) (lines_of text)) \<and>
            replace NewlinePattern (\<lambda>m. [LF]) [] (join (EOL os) (lines_of text)) =
              replace NewlinePattern (\<lambda>m. [LF]) [] text)"
proof -
  let ?ls = "lines_of text"
  let ?rs = "map render_line (map parse_line ?ls)"
  have ne: "?ls \<noteq> []" by (simp add: lines_of_def)
  from assms(1,2) have r1: "r1 = Inr ()" and p1: "p1 = p\<lparr>data := map parse_line ?ls\<rparr>"
    by (simp_all add: data_loadProperties)
  from assms(3) p1 have p2: "p2 = p1" and fs2: "fs2 = fs(path' p \<mapsto> join (EOL os) ?rs)"
    by (simp_all add: setProperties_Nil)
  from fs2 p1 have w: "fs2 (path' p) = Some (join (EOL os) (map render_line (data p1)))" by simp
  from fs2 p1 p2 have "fs2 (path' p2) = Some (join (EOL os) ?rs)" by simp
  with data_loadProperties [of fs2 p2 "join (EOL os) ?rs"] assms(4)
  have r3: "r3 = Inr ()" and p3: "p3 = p2\<lparr>data := map parse_line (lines_of (join (EOL os) ?rs))\<rparr>"
    by simp_all
  from p3 have "data p3 = map parse_line (lines_of (join (EOL os) ?rs))" by simp
  also have "\<dots> = map parse_line ?rs" by (simp only: lines_of_rendered [OF ne])
  also have "\<dots> = map parse_line ?ls" by (simp add: parse_render_parse)
  finally have d3: "data p3 = data p1" using p1 by simp
  have "fs2 (path' p) = Some (join (EOL os) ?ls) \<and>
        replace NewlinePattern (\<lambda>m. [LF]) [] (join (EOL os) ?ls) =
          replace NewlinePattern (\<lambda>m. [LF]) [] text"
    if can: "list_all canonical ?ls"
  proof -
    from can have "?rs = ?ls"
      by (simp add: list_all_iff render_parse_canonical map_idI)
    with fs2 have a: "fs2 (path' p) = Some (join (EOL os) ?ls)" by simp
    from \<open>?rs = ?ls\<close> have "\<forall>l \<in> set ?ls. list_all dot l"
      by (metis (no_types, lifting) imageE list.set_map render_parse_dot)
    then have "normalize (join (EOL os) ?ls) = join [LF] ?ls" by (rule normalize_join)
    also have "\<dots> = normalize text" by (simp add: lines_of_eq join_split)
    finally show ?thesis using a by (simp add: replace_NewlinePattern)
  qed
  with r1 r3 p2 d3 w show ?thesis by simp
qed

lemma sample_lines:
  "lines_of sample_properties =
     [''#Minecraft server properties'', [], ''motd=A Minecraft Server'', ''level-seed=a=b'']"
  by (simp add: lines_of_eq sample_properties_def CR_def LF_def)

theorem reload_after_setting_nothing_witness:
  "list_all canonical (lines_of sample_properties) \<and>
   fst (snd (setProperties posix []
               [''server.properties'' \<mapsto> sample_properties]
               (snd (loadProperties [''server.properties'' \<mapsto> sample_properties]
                       (new_Properties ''server.properties'')))))
     ''server.properties'' =
     Some (''#Minecraft server properties'' @ [LF] @ [LF] @ ''motd=A Minecraft Server''
           @ [LF] @ ''level-seed=a=b'') \<and>
   data (snd (loadProperties
                (fst (snd (setProperties posix []
                             [''server.properties'' \<mapsto> sample_properties]
                             (snd (loadProperties [''server.properties'' \<mapsto> sample_properties]
                                     (new_Properties ''server.properties''))))))
                (snd (snd (setProperties posix []
                             [''server.properties'' \<mapsto> sample_properties]
                             (snd (loadProperties [''server.properties'' \<mapsto> sample_properties]
                                     (new_Properties ''server.properties'')))))))) =
     [Comment ''#Minecraft server properties'', Null,
      Property \<lparr>name = ''motd'', value' = ''A Minecraft Server''\<rparr>,
      Property \<lparr>name = ''level-seed=a'', value' = ''b''\<rparr>]"
proof -
  let ?fs = "[''server.properties'' \<mapsto> sample_properties]"
  let ?p = "new_Properties ''server.properties''"
  let ?l1 = "loadProperties ?fs ?p"
  let ?s = "setProperties posix [] ?fs (snd ?l1)"
  let ?l3 = "loadProperties (fst (snd ?s)) (snd (snd ?s))"
  have a1: "?fs (path' ?p) = Some sample_properties" by (simp add: new_Properties_def)
  have a2: "?l1 = (fst ?l1, snd ?l1)" by simp
  have a3: "?s = (fst ?s, fst (snd ?s), snd (snd ?s))" by simp
  have a4: "?l3 = (fst ?l3, snd ?l3)" by simp
  have c: "list_all canonical (lines_of sample_properties)"
    by (simp add: sample_lines dot_def space_def)
  have d: "data (snd ?l1) =
     [Comment ''#Minecraft server properties'', Null,
      Property \<lparr>name = ''motd'', value' = ''A Minecraft Server''\<rparr>,
      Property \<lparr>name = ''level-seed=a'', value' = ''b''\<rparr>]"
    using data_loadProperties [of ?fs ?p sample_properties] a1
    by (simp add: sample_lines parse_line_eq dot_def space_def)
  from reload_after_setting_nothing [of ?fs ?p sample_properties "fst ?l1" "snd ?l1" posix
             "fst ?s" "fst (snd ?s)" "snd (snd ?s)" "fst ?l3" "snd ?l3"] a1 a2 a3 a4 c d
  show ?thesis
    by (simp add: sample_lines new_Properties_def render_line_def del: fun_upd_apply)
qed

text \<open>A file of a comment, an empty line and an indented property line is written back
  without the indentation.\<close>

theorem indentation_is_not_written_back:
  "lines_of indented_properties = [''#Minecraft server properties'', [], ''  motd=hi''] \<and>
   fst (snd (setProperties posix []
               [''server.properties'' \<mapsto> indented_properties]
               (snd (loadProperties [''server.properties'' \<mapsto> indented_properties]
                       (new_Properties ''server.properties'')))))
     ''server.properties'' =
     Some (''#Minecraft server properties'' @ [LF, LF] @ ''motd=hi'') \<and>
   replace NewlinePattern (\<lambda>m. [LF]) [] (''#Minecraft server properties'' @ [LF, LF] @ ''motd=hi'')
     \<noteq> replace NewlinePattern (\<lambda>m. [LF]) [] indented_properties"
proof -
  let ?fs = "[''server.properties'' \<mapsto> indented_properties]"
  let ?p = "new_Properties ''server.properties''"
  have a1: "?fs (path' ?p) = Some indented_properties" by (simp add: new_Properties_def)
  have l: "lines_of indented_properties = [''#Minecraft server properties'', [], ''  motd=hi'']"
    by (simp add: lines_of_eq indented_properties_def CR_def LF_def)
  have "fst (snd (setProperties posix [] ?fs (snd (loadProperties ?fs ?p)))) ''server.properties'' =
     Some (''#Minecraft server properties'' @ [LF, LF] @ ''motd=hi'')"
    using data_loadProperties [of ?fs ?p indented_properties] a1
    by (simp add: l setProperties_Nil parse_line_eq render_line_def
          new_Properties_def dot_def space_def)
  moreover have "replace NewlinePattern (\<lambda>m. [LF]) []
       (''#Minecraft server properties'' @ [LF, LF] @ ''motd=hi'')
     \<noteq> replace NewlinePattern (\<lambda>m. [LF]) [] indented_properties"
    unfolding replace_NewlinePattern by (simp add: indented_properties_def CR_def LF_def)
  ultimately show ?thesis using l by simp
qed

section \<open>acceptEula\<close>

lemma LitI_Nil: "LitI [] = Empty"
  by (simp add: LitI_def)

lemma LitI_Cons: "LitI (a # w) = Seq (Chars (\<lambda>x. Canonicalize x = Canonicalize a)) (LitI w)"
  by (simp add: LitI_def)

lemma matches_LitI:
  "matches (LitI w) (p, s, caps) =
     (if starts_ci w s then [(rev (take (length w) s) @ p, drop (length w) s, caps)] else [])"
proof (induction w arbitrary: p s)
  case Nil
  show ?case by (simp add: LitI_Nil)
next
  case (Cons a w)
  show ?case
  proof (cases s)
    case Nil
    then show ?thesis by (simp add: LitI_Cons)
  next
    case (Cons c cs)
    with Cons.IH [of "c # p" cs] show ?thesis by (simp add: LitI_Cons)
  qed
qed

lemma starts_ci_length: "starts_ci w s \<Longrightarrow> length w \<le> length s"
  by (induction w s rule: starts_ci.induct) simp_all

lemma starts_ci_append:
  "starts_ci (u @ w) s \<longleftrightarrow> starts_ci u s \<and> starts_ci w (drop (length u) s)"
proof (induction u arbitrary: s)
  case Nil
  show ?case by simp
next
  case (Cons a u)
  then show ?case by (cases s) auto
qed

lemma starts_true: "starts_ci ''eula=true'' s \<longleftrightarrow> starts_ci ''eula='' s \<and> starts_ci ''true'' (drop 5 s)"
  using starts_ci_append [of "''eula=''" "''true''" s] by (simp add: eval_nat_numeral)

lemma starts_false: "starts_ci ''eula=false'' s \<longleftrightarrow> starts_ci ''eula='' s \<and> starts_ci ''false'' (drop 5 s)"
  using starts_ci_append [of "''eula=''" "''false''" s] by (simp add: eval_nat_numeral)

lemma matches_EulaLinePattern:
  "(starts_ci ''eula=true'' s \<longrightarrow>
      (\<exists>prev' caps t. matches EulaLinePattern (p, s, []) = (prev', drop 9 s, caps) # t)) \<and>
   (\<not> starts_ci ''eula=true'' s \<and> starts_ci ''eula=false'' s \<longrightarrow>
      (\<exists>prev' caps t. matches EulaLinePattern (p, s, []) = (prev', drop 10 s, caps) # t)) \<and>
   (\<not> starts_ci ''eula=true'' s \<and> \<not> starts_ci ''eula=false'' s \<longrightarrow>
      matches EulaLinePattern (p, s, []) = [])"
  unfolding starts_true starts_false
  by (auto simp add: EulaLinePattern_def matches_LitI eval_nat_numeral)

lemma replace_EulaLinePattern: "replace EulaLinePattern (\<lambda>m. rep) prev s = eula_line rep s"
proof (induction rep s arbitrary: prev rule: eula_line.induct)
  case (1 rep)
  have "matches EulaLinePattern (prev, [], []) = []"
    using matches_EulaLinePattern [of "[]" prev] by simp
  then show ?case by simp
next
  case (2 rep c cs)
  note m = matches_EulaLinePattern [of "c # cs" prev]
  show ?case
  proof (cases "starts_ci ''eula=true'' (c # cs)")
    case True
    with m obtain prev' caps t where
      e: "matches EulaLinePattern (prev, c # cs, []) = (prev', drop 9 (c # cs), caps) # t" by blast
    from True 2 have "replace EulaLinePattern (\<lambda>m. rep) prev' (drop 9 (c # cs)) =
        eula_line rep (drop 9 (c # cs))" by simp
    moreover have "length (drop 9 (c # cs)) < length (c # cs)" by simp
    ultimately show ?thesis using True e
      by (subst replace.simps(2)) (simp del: replace.simps starts_ci.simps eula_line.simps
            add: eula_line.simps(2) [of rep c cs])
  next
    case False
    show ?thesis
    proof (cases "starts_ci ''eula=false'' (c # cs)")
      case True
      with False m obtain prev' caps t where
        e: "matches EulaLinePattern (prev, c # cs, []) = (prev', drop 10 (c # cs), caps) # t"
        by blast
      from True False 2 have "replace EulaLinePattern (\<lambda>m. rep) prev' (drop 10 (c # cs)) =
          eula_line rep (drop 10 (c # cs))" by simp
      moreover have "length (drop 10 (c # cs)) < length (c # cs)" by simp
      ultimately show ?thesis using True False e
        by (subst replace.simps(2)) (simp del: replace.simps starts_ci.simps eula_line.simps
              add: eula_line.simps(2) [of rep c cs])
    next
      case f: False
      with False m have e: "matches EulaLinePattern (prev, c # cs, []) = []" by blast
      from False f 2 have "replace EulaLinePattern (\<lambda>m. rep) (c # prev) cs = eula_line rep cs"
        by simp
      with False f e show ?thesis
        by (subst replace.simps(2)) (simp del: replace.simps starts_ci.simps eula_line.simps
              add: eula_line.simps(2) [of rep c cs])
    qed
  qed
qed

lemma Canonicalize_LF [simp]: "Canonicalize c = LF \<longleftrightarrow> c = LF"
  by (auto simp: Canonicalize_def LF_def split: option.splits if_splits)

lemma Canonicalize_LF' [simp]: "Canonicalize LF = LF"
  by (simp add: Canonicalize_def LF_def)

lemma starts_ci_line:
  "LF \<notin> set (map Canonicalize w) \<Longrightarrow> pre \<noteq> [] \<Longrightarrow> last pre = LF \<Longrightarrow>
     starts_ci w (pre @ s) = starts_ci w pre"
proof (induction w arbitrary: pre)
  case Nil
  show ?case by simp
next
  case (Cons a w)
  from Cons.prems obtain c cs where pre: "pre = c # cs" by (cases pre) auto
  show ?case
  proof (cases cs)
    case Nil
    with pre Cons.prems have "c = LF" by simp
    with Cons.prems have "Canonicalize c \<noteq> Canonicalize a" by auto
    with pre show ?thesis by simp
  next
    case (Cons d ds)
    with pre Cons.prems have "last cs = LF" "cs \<noteq> []" by simp_all
    with Cons.IH [of cs] Cons.prems have "starts_ci w (cs @ s) = starts_ci w cs" by simp
    with pre show ?thesis by simp
  qed
qed

lemma drop_line:
  "pre = [] \<or> last pre = LF \<Longrightarrow> drop k pre = [] \<or> last (drop k pre) = LF"
  by (cases "k < length pre") auto

lemma eula_line_append:
  "pre = [] \<or> last pre = LF \<Longrightarrow> eula_line rep (pre @ s) = eula_line rep pre @ eula_line rep s"
proof (induction rep pre rule: eula_line.induct)
  case (1 rep)
  show ?case by simp
next
  case (2 rep c cs)
  then have l: "last (c # cs) = LF" by simp
  have t: "starts_ci ''eula=true'' ((c # cs) @ s) = starts_ci ''eula=true'' (c # cs)"
    using l by (intro starts_ci_line) (simp_all add: Canonicalize_def LF_def)
  have f: "starts_ci ''eula=false'' ((c # cs) @ s) = starts_ci ''eula=false'' (c # cs)"
    using l by (intro starts_ci_line) (simp_all add: Canonicalize_def LF_def)
  show ?case
  proof (cases "starts_ci ''eula=true'' (c # cs)")
    case True
    from starts_ci_length [OF True] have d: "drop 9 ((c # cs) @ s) = drop 9 (c # cs) @ s" by simp
    from 2(4) have "drop 9 (c # cs) = [] \<or> last (drop 9 (c # cs)) = LF" by (rule drop_line)
    with 2(1) True have "eula_line rep (drop 9 (c # cs) @ s) =
        eula_line rep (drop 9 (c # cs)) @ eula_line rep s" by simp
    with True t d show ?thesis
      using eula_line.simps(2) [of rep c "cs @ s"] eula_line.simps(2) [of rep c cs]
      by (simp del: eula_line.simps starts_ci.simps)
  next
    case False
    show ?thesis
    proof (cases "starts_ci ''eula=false'' (c # cs)")
      case True
      from starts_ci_length [OF True] have d: "drop 10 ((c # cs) @ s) = drop 10 (c # cs) @ s"
        by simp
      from 2(4) have "drop 10 (c # cs) = [] \<or> last (drop 10 (c # cs)) = LF" by (rule drop_line)
      with 2(2) True False have "eula_line rep (drop 10 (c # cs) @ s) =
          eula_line rep (drop 10 (c # cs)) @ eula_line rep s" by simp
      with True False t f d show ?thesis
        using eula_line.simps(2) [of rep c "cs @ s"] eula_line.simps(2) [of rep c cs]
        by (simp del: eula_line.simps starts_ci.simps)
    next
      case ff: False
      from 2(4) have "cs = [] \<or> last cs = LF" by (cases cs) auto
      with 2(3) False ff have "eula_line rep (cs @ s) = eula_line rep cs @ eula_line rep s" by simp
      with False ff t f show ?thesis
        using eula_line.simps(2) [of rep c "cs @ s"] eula_line.simps(2) [of rep c cs]
        by (simp del: eula_line.simps starts_ci.simps)
    qed
  qed
qed

lemma eula_line_true: "eula_line rep (''eula=true'' @ s) = rep @ eula_line rep s"
  by (simp add: Canonicalize_def)

lemma eula_line_false: "eula_line rep (''eula=false'' @ s) = rep @ eula_line rep s"
  by (simp add: Canonicalize_def)

lemma starts_ci_sign: "starts_ci ''eula='' s \<Longrightarrow> CHR ''='' \<in> set s"
  by (cases s; simp; cases "tl s"; simp; cases "tl (tl s)"; simp; cases "tl (tl (tl s))"; simp;
      cases "tl (tl (tl (tl s)))"; simp)

lemma eula_line_no_sign: "CHR ''='' \<notin> set t \<Longrightarrow> eula_line rep t = t"
proof (induction t)
  case Nil
  show ?case by simp
next
  case (Cons c cs)
  from Cons.prems have "\<not> starts_ci ''eula='' (c # cs)" using starts_ci_sign by blast
  then have "\<not> starts_ci ''eula=true'' (c # cs)" "\<not> starts_ci ''eula=false'' (c # cs)"
    unfolding starts_true starts_false by (simp_all del: starts_ci.simps)
  with Cons show ?case by (simp del: starts_ci.simps)
qed

text \<open>
  C4 (as amended). \<^verbatim>\<open>acceptEula(accept)\<close> of the Server class in servers/server.ts, on an
  eula.txt with a line \<^verbatim>\<open>eula=true\<close> or \<^verbatim>\<open>eula=false\<close>: the line becomes \<^verbatim>\<open>eula=\<close> and the
  given boolean, for both booleans (as does every other match of the pattern; a text
  without \<^verbatim>\<open>=\<close> has none), the boolean is returned, and the server is left as it was: no
  state changes and no process is started. \<^verbatim>\<open>acceptEula\<close> of the Server class in server.ts
  does nothing when the boolean is false; when it is true it replaces the first
  \<^verbatim>\<open>eula=false\<close> by \<^verbatim>\<open>eula=true\<close> and then runs \<^verbatim>\<open>start\<close>, whose outcome it returns.
\<close>

theorem acceptEula_rewrites_eula_line:
  "(fs (eula s) = Some (pre @ ''eula='' @ show_bool b @ post) \<and> (pre = [] \<or> last pre = LF) \<longrightarrow>
      acceptEula accept fs s =
        (Inr accept,
         fs(eula s \<mapsto>
              replace EulaLinePattern (\<lambda>m. ''eula='' @ show_bool accept) [] pre
              @ ''eula='' @ show_bool accept
              @ replace EulaLinePattern (\<lambda>m. ''eula='' @ show_bool accept) [] post),
         s)) \<and>
   (CHR ''='' \<notin> set t \<longrightarrow> replace EulaLinePattern (\<lambda>m. ''eula='' @ show_bool accept) [] t = t) \<and>
   server_ts_acceptEula now env False fs s = (Inr (), fs, s) \<and>
   (fs (eula s) = Some text \<longrightarrow>
      server_ts_acceptEula now env True fs s =
        (fst (start now env s),
         fs(eula s \<mapsto> replace_first ''eula=false'' ''eula=true'' text),
         snd (start now env s)))"
proof (intro conjI impI)
  assume a: "fs (eula s) = Some (pre @ ''eula='' @ show_bool b @ post) \<and> (pre = [] \<or> last pre = LF)"
  let ?rep = "''eula='' @ show_bool accept"
  have "eula_line ?rep (pre @ ''eula='' @ show_bool b @ post) =
          eula_line ?rep pre @ eula_line ?rep (''eula='' @ show_bool b @ post)"
    using a by (intro eula_line_append) simp
  also have "eula_line ?rep (''eula='' @ show_bool b @ post) = ?rep @ eula_line ?rep post"
    using eula_line_true [of ?rep post] eula_line_false [of ?rep post]
    by (cases b) (simp_all add: show_bool_def del: eula_line.simps)
  finally show "acceptEula accept fs s =
        (Inr accept,
         fs(eula s \<mapsto>
              replace EulaLinePattern (\<lambda>m. ''eula='' @ show_bool accept) [] pre
              @ ''eula='' @ show_bool accept
              @ replace EulaLinePattern (\<lambda>m. ''eula='' @ show_bool accept) [] post),
         s)"
    using a by (simp add: acceptEula_def readFile_def writeFile_def replace_EulaLinePattern)
next
  assume "CHR ''='' \<notin> set t"
  then show "replace EulaLinePattern (\<lambda>m. ''eula='' @ show_bool accept) [] t = t"
    by (simp add: replace_EulaLinePattern eula_line_no_sign)
next
  show "server_ts_acceptEula now env False fs s = (Inr (), fs, s)"
    by (simp add: server_ts_acceptEula_def)
next
  assume "fs (eula s) = Some text"
  then show "server_ts_acceptEula now env True fs s =
        (fst (start now env s),
         fs(eula s \<mapsto> replace_first ''eula=false'' ''eula=true'' text),
         snd (start now env s))"
    by (simp add: server_ts_acceptEula_def readFile_def writeFile_def Let_def case_prod_unfold)
qed

lemma eula_txt_split:
  "eula_txt b =
     (''#By changing the setting below to TRUE you are indicating your agreement to our EULA (https://aka.ms/MinecraftEULA).''
      @ [LF] @ ''#Mon Mar 20 21:15:37 CET 2023'' @ [LF]) @ ''eula='' @ show_bool b @ [LF]"
  by (simp add: eula_txt_def)

theorem acceptEula_rewrites_eula_line_witness:
  "acceptEula True [''./server/eula.txt'' \<mapsto> eula_txt False] (new_Server None) =
     (Inr True, [''./server/eula.txt'' \<mapsto> eula_txt True], new_Server None) \<and>
   acceptEula False [''./server/eula.txt'' \<mapsto> eula_txt True] (new_Server None) =
     (Inr False, [''./server/eula.txt'' \<mapsto> eula_txt False], new_Server None)"
proof -
  let ?pre = "''#By changing the setting below to TRUE you are indicating your agreement to our EULA (https://aka.ms/MinecraftEULA).''
      @ [LF] @ ''#Mon Mar 20 21:15:37 CET 2023'' @ [LF]"
  have e: "eula (new_Server None) = ''./server/eula.txt''"
    by (simp add: eula_def path_join_def new_Server_def)
  have p: "CHR ''='' \<notin> set ?pre" "CHR ''='' \<notin> set [LF]" "last ?pre = LF"
    by (simp_all add: LF_def)
  have f1: "[''./server/eula.txt'' \<mapsto> eula_txt False] (eula (new_Server None)) =
      Some (?pre @ ''eula='' @ show_bool False @ [LF])"
    by (simp add: e eula_txt_def)
  have f2: "[''./server/eula.txt'' \<mapsto> eula_txt True] (eula (new_Server None)) =
      Some (?pre @ ''eula='' @ show_bool True @ [LF])"
    by (simp add: e eula_txt_def)
  note t1 = acceptEula_rewrites_eula_line
    [of "[''./server/eula.txt'' \<mapsto> eula_txt False]" "new_Server None" ?pre False "[LF]" True]
  note t2 = acceptEula_rewrites_eula_line
    [of "[''./server/eula.txt'' \<mapsto> eula_txt True]" "new_Server None" ?pre True "[LF]" False]
  from t1 [of ?pre] t1 [of "[LF]"] f1 p
  have a: "acceptEula True [''./server/eula.txt'' \<mapsto> eula_txt False] (new_Server None) =
     (Inr True, [''./server/eula.txt'' \<mapsto> eula_txt True], new_Server None)"
    by (simp add: e eula_txt_def del: fun_upd_apply)
  from t2 [of ?pre] t2 [of "[LF]"] f2 p
  have b: "acceptEula False [''./server/eula.txt'' \<mapsto> eula_txt True] (new_Server None) =
     (Inr False, [''./server/eula.txt'' \<mapsto> eula_txt False], new_Server None)"
    by (simp add: e eula_txt_def del: fun_upd_apply)
  from a b show ?thesis by simp
qed

text \<open>With the class of server.ts, rejecting leaves \<^verbatim>\<open>eula=true\<close> in the file, and accepting
  starts the server: the state becomes STARTING and a process is spawned.\<close>

theorem server_ts_acceptEula_starts_server:
  "fst (snd (server_ts_acceptEula ''12:00:00'' online False
               [''./server/eula.txt'' \<mapsto> ''eula=true''] (new_Server None)))
     ''./server/eula.txt'' = Some ''eula=true'' \<and>
   state (snd (snd (server_ts_acceptEula ''12:00:00'' online True
                      [''./server/eula.txt'' \<mapsto> ''eula=false''] (new_Server None)))) = STARTING \<and>
   process (snd (snd (server_ts_acceptEula ''12:00:00'' online True
                        [''./server/eula.txt'' \<mapsto> ''eula=false''] (new_Server None)))) \<noteq> None"
  by (simp add: server_ts_acceptEula_def readFile_def writeFile_def eula_def path_join_def
        new_Server_def start_def start_try_def canStart_def set_state_def log_def push_log_def
        online_def sample_manifest_def entry_def ensure_directory_def ensure_jar_def Let_def)

end
